theory Spec2Isabelle
  imports Main "HOL-Library.Word"
begin

unbundle bit_operations_syntax

section \<open>JavaScript numbers and bitwise operators\<close>

text \<open>
  The converter of \<^verbatim>\<open>src/components/HexToImageConverter.tsx\<close> computes on JavaScript
  numbers that are always integers here (array lengths, pixel values, sizes), so a number is an
  \<^typ>\<open>int\<close>. The bitwise operators first convert their operands to signed 32-bit integers
  (\<^verbatim>\<open>ToInt32\<close>), and a shift distance is taken modulo 32.
\<close>

definition ToInt32 :: "int \<Rightarrow> int" where
  "ToInt32 x = signed_take_bit 31 x"

definition js_shr :: "int \<Rightarrow> nat \<Rightarrow> int" where
  "js_shr a n = drop_bit (n mod 32) (ToInt32 a)"

definition js_shl :: "int \<Rightarrow> nat \<Rightarrow> int" where
  "js_shl a n = ToInt32 (push_bit (n mod 32) (ToInt32 a))"

definition js_and :: "int \<Rightarrow> int \<Rightarrow> int" where
  "js_and a b = ToInt32 a AND ToInt32 b"

definition js_or :: "int \<Rightarrow> int \<Rightarrow> int" where
  "js_or a b = ToInt32 a OR ToInt32 b"

text \<open>The remainder operator \<^verbatim>\<open>%\<close> truncates: its result has the sign of the dividend.\<close>

definition js_rem :: "int \<Rightarrow> int \<Rightarrow> int" where
  "js_rem a b = sgn a * (\<bar>a\<bar> mod \<bar>b\<bar>)"

section \<open>Colour conversion: \<^verbatim>\<open>rgb565ToRgb\<close>\<close>

definition rgb565ToRgb :: "int \<Rightarrow> int \<times> int \<times> int" where
  "rgb565ToRgb rgb565 =
     (let r = js_and (js_shr rgb565 11) 0x1F;
          g = js_and (js_shr rgb565 5) 0x3F;
          b = js_and rgb565 0x1F;
          r8 = js_or (js_shl r 3) (js_shr r 2);
          g8 = js_or (js_shl g 2) (js_shr g 4);
          b8 = js_or (js_shl b 3) (js_shr b 2)
      in (r8, g8, b8))"

text \<open>
  Widening a 5-bit and a 6-bit channel to eight bits by repeating its high bits below it,
  on plain integers.
\<close>

definition expand5 :: "int \<Rightarrow> int" where
  "expand5 v = push_bit 3 v OR drop_bit 2 v"

definition expand6 :: "int \<Rightarrow> int" where
  "expand6 v = push_bit 2 v OR drop_bit 4 v"

section \<open>Dimension inference (the second half of \<^verbatim>\<open>parseHexFile\<close>)\<close>

text \<open>
  The candidate list holds numbers of two kinds: integers, and \<^verbatim>\<open>Math.sqrt(totalPixels)\<close>.
  The code only ever reads a candidate through \<^verbatim>\<open>Math.floor\<close> (and the square root once
  more through \<^verbatim>\<open>Math.ceil\<close>), so the square root is kept symbolic and rounded where
  the code rounds it. \<^verbatim>\<open>Math.sqrt\<close> is correctly rounded: it is exact on perfect squares,
  and for an array length (below \<open>2\<^sup>3\<^sup>2\<close>) its rounding error is far smaller than the distance
  of an irrational root to the next integer, so its floor is the integer square root.
  \<open>NaN\<close> is the quotient \<^verbatim>\<open>0 / 0\<close> of the fallback for an empty array.
\<close>

fun floor_sqrt :: "nat \<Rightarrow> nat" where
  "floor_sqrt n =
     (if n < 2 then n
      else let r = 2 * floor_sqrt (n div 4)
           in if (r + 1) * (r + 1) \<le> n then r + 1 else r)"

declare floor_sqrt.simps [simp del]

datatype jsnum = Num nat | Sqrt nat | NaN

fun js_floor :: "jsnum \<Rightarrow> nat option" where
  "js_floor (Num n) = Some n"
| "js_floor (Sqrt n) = Some (floor_sqrt n)"
| "js_floor NaN = None"

fun js_ceil :: "jsnum \<Rightarrow> nat option" where
  "js_ceil (Num n) = Some n"
| "js_ceil (Sqrt n) =
     Some (if floor_sqrt n * floor_sqrt n = n then floor_sqrt n else floor_sqrt n + 1)"
| "js_ceil NaN = None"

text \<open>A product with \<open>NaN\<close> is \<open>NaN\<close>, and \<open>NaN\<close> is different from every number.\<close>

fun js_mul :: "nat option \<Rightarrow> nat option \<Rightarrow> nat option" where
  "js_mul (Some a) (Some b) = Some (a * b)"
| "js_mul _ _ = None"

definition commonResolutions :: "(nat \<times> nat) list" where
  "commonResolutions =
     [(128, 128), (64, 64), (32, 32), (16, 16),
      (320, 240), (240, 320), (128, 160), (160, 128),
      (128, 64), (64, 128), (96, 64), (64, 96)]"

text \<open>
  \<^verbatim>\<open>commonResolutions.forEach\<close> visits the table in order and \<^verbatim>\<open>unshift\<close> puts each
  matching entry in front of the candidates collected so far.
\<close>

definition possibleDimensions :: "nat \<Rightarrow> (jsnum \<times> jsnum) list" where
  "possibleDimensions totalPixels =
     fold (\<lambda>res dims. if fst res * snd res = totalPixels
                       then (Num (fst res), Num (snd res)) # dims else dims)
       commonResolutions
       [(Sqrt totalPixels, Sqrt totalPixels), (Num totalPixels, Num 1), (Num 1, Num totalPixels)]"

text \<open>The object on the right of \<^verbatim>\<open>||\<close>, used when \<^verbatim>\<open>find\<close> returns nothing.\<close>

definition fallbackDimension :: "nat \<Rightarrow> jsnum \<times> jsnum" where
  "fallbackDimension totalPixels =
     (case js_ceil (Sqrt totalPixels) of
        None \<Rightarrow> (NaN, NaN)
      | Some c \<Rightarrow> (Num c, if c = 0 then NaN else Num ((totalPixels + c - 1) div c)))"

definition resolveDimensions :: "nat \<Rightarrow> nat \<times> nat" where
  "resolveDimensions totalPixels =
     (let dimension =
            (case find (\<lambda>dim. js_mul (js_floor (fst dim)) (js_floor (snd dim)) = Some totalPixels)
                    (possibleDimensions totalPixels) of
               Some dim \<Rightarrow> dim
             | None \<Rightarrow> fallbackDimension totalPixels)
      in case (js_floor (fst dimension), js_floor (snd dimension)) of
           (Some w, Some h) \<Rightarrow> if w * h \<noteq> totalPixels then (totalPixels, 1) else (w, h)
         | _ \<Rightarrow> (totalPixels, 1))"

section \<open>The image record and the errors\<close>

record ImageData =
  width :: int
  height :: int
  data :: "int list"
  name :: string

text \<open>
  \<open>NoHexValuesFound\<close> and \<open>NoValidHexValues\<close> are the two \<^verbatim>\<open>throw new Error\<close> sites of
  \<^verbatim>\<open>parseHexFile\<close> (lines 59 and 99); \<open>RangeError\<close> is what \<^verbatim>\<open>new ArrayBuffer\<close> and
  the \<^verbatim>\<open>DataView\<close> setters throw.
\<close>

datatype error = NoHexValuesFound | NoValidHexValues | RangeError

section \<open>BMP encoding: \<^verbatim>\<open>createBMP\<close>\<close>

type_synonym byte = "8 word"

text \<open>
  A \<^verbatim>\<open>DataView\<close> setter with \<^verbatim>\<open>littleEndian = true\<close> stores the low byte first, and
  throws when the field does not fit into the buffer. \<^verbatim>\<open>setUint32\<close> and \<^verbatim>\<open>setInt32\<close>
  store the same four bytes of a value (its residue modulo \<open>2\<^sup>3\<^sup>2\<close>).
\<close>

fun le_bytes :: "nat \<Rightarrow> int \<Rightarrow> byte list" where
  "le_bytes 0 v = []"
| "le_bytes (Suc n) v = word_of_int v # le_bytes n (v div 256)"

definition dv_set :: "nat \<Rightarrow> byte list \<Rightarrow> nat \<Rightarrow> int \<Rightarrow> error + byte list" where
  "dv_set n buf byteOffset v =
     (if length buf < byteOffset + n then Inl RangeError
      else Inr (take byteOffset buf @ le_bytes n v @ drop (byteOffset + n) buf))"

datatype setter = SetUint16 | SetUint32 | SetInt32

fun setter_size :: "setter \<Rightarrow> nat" where
  "setter_size SetUint16 = 2"
| "setter_size SetUint32 = 4"
| "setter_size SetInt32 = 4"

text \<open>A sequence of setter calls on one view; the first exception ends it.\<close>

fun view_sets :: "byte list \<Rightarrow> (setter \<times> nat \<times> int) list \<Rightarrow> error + byte list" where
  "view_sets buf [] = Inr buf"
| "view_sets buf ((s, byteOffset, v) # ws) =
     (case dv_set (setter_size s) buf byteOffset v of
        Inl e \<Rightarrow> Inl e
      | Inr buf' \<Rightarrow> view_sets buf' ws)"

text \<open>The fifteen header writes of lines 174 to 190, in order.\<close>

definition bmp_header :: "ImageData \<Rightarrow> int \<Rightarrow> int \<Rightarrow> (setter \<times> nat \<times> int) list" where
  "bmp_header imageData fileSize imageSize =
     [(SetUint16, 0, 0x424D),
      (SetUint32, 2, fileSize),
      (SetUint32, 6, 0),
      (SetUint32, 10, 54),
      (SetUint32, 14, 40),
      (SetInt32, 18, width imageData),
      (SetInt32, 22, height imageData),
      (SetUint16, 26, 1),
      (SetUint16, 28, 24),
      (SetUint32, 30, 0),
      (SetUint32, 34, imageSize),
      (SetInt32, 38, 2835),
      (SetInt32, 42, 2835),
      (SetUint32, 46, 0),
      (SetUint32, 50, 0)]"

text \<open>
  An array read outside the array is \<^verbatim>\<open>undefined\<close>, which the bitwise operators of
  \<^verbatim>\<open>rgb565ToRgb\<close> convert to 0.
\<close>

definition data_at :: "int list \<Rightarrow> int \<Rightarrow> int" where
  "data_at xs i = (if 0 \<le> i \<and> i < int (length xs) then xs ! nat i else 0)"

text \<open>
  The three loops of lines 194 to 213 carry the byte array and \<^verbatim>\<open>offset\<close>. An assignment
  to a \<^verbatim>\<open>Uint8Array\<close> element stores the value modulo 256, and is ignored outside the
  array, as a list update is.
\<close>

function pixel_loop :: "ImageData \<Rightarrow> int \<Rightarrow> int \<Rightarrow> byte list \<times> nat \<Rightarrow> byte list \<times> nat" where
  "pixel_loop imageData y x (buf, offset) =
     (if x < width imageData then
        let pixelIndex = y * width imageData + x;
            (r, g, b) = (if pixelIndex < int (length (data imageData))
                         then rgb565ToRgb (data_at (data imageData) pixelIndex)
                         else (0, 0, 0))
        in pixel_loop imageData y (x + 1)
             (buf[offset := word_of_int b, offset + 1 := word_of_int g, offset + 2 := word_of_int r],
              offset + 3)
      else (buf, offset))"
  by pat_completeness auto
termination
  by (relation "measure (\<lambda>(imageData, y, x, st). nat (width imageData - x))") auto

function padding_loop :: "int \<Rightarrow> int \<Rightarrow> byte list \<times> nat \<Rightarrow> byte list \<times> nat" where
  "padding_loop paddingSize p (buf, offset) =
     (if p < paddingSize then padding_loop paddingSize (p + 1) (buf[offset := 0], offset + 1)
      else (buf, offset))"
  by pat_completeness auto
termination
  by (relation "measure (\<lambda>(paddingSize, p, st). nat (paddingSize - p))") auto

function row_loop :: "ImageData \<Rightarrow> int \<Rightarrow> int \<Rightarrow> byte list \<times> nat \<Rightarrow> byte list \<times> nat" where
  "row_loop imageData paddingSize y st =
     (if 0 \<le> y then
        row_loop imageData paddingSize (y - 1)
          (padding_loop paddingSize 0 (pixel_loop imageData y 0 st))
      else st)"
  by pat_completeness auto
termination
  by (relation "measure (\<lambda>(imageData, paddingSize, y, st). nat (y + 1))") auto

declare pixel_loop.simps [simp del] padding_loop.simps [simp del] row_loop.simps [simp del]

text \<open>
  \<^verbatim>\<open>new ArrayBuffer(length)\<close> throws a \<^verbatim>\<open>RangeError\<close> for a negative length and for
  a length that the engine does not allocate; otherwise it gives \<open>length\<close> zero bytes. How
  much an engine allocates is not fixed by the language (only that it is never more than
  \<open>2\<^sup>5\<^sup>3 - 1\<close> bytes, below which the arithmetic of the code is exact), so the largest
  length the engine grants is a parameter of the model, \<open>maxByteLength\<close>.
\<close>

definition new_ArrayBuffer :: "nat \<Rightarrow> int \<Rightarrow> error + byte list" where
  "new_ArrayBuffer maxByteLength len =
     (if len < 0 \<or> int maxByteLength < len then Inl RangeError
      else Inr (replicate (nat len) 0))"

definition createBMP :: "nat \<Rightarrow> ImageData \<Rightarrow> error + byte list" where
  "createBMP maxByteLength imageData =
     (let paddingSize = js_rem (4 - js_rem (width imageData * 3) 4) 4;
          rowSize = width imageData * 3 + paddingSize;
          imageSize = rowSize * height imageData;
          fileSize = 54 + imageSize
      in case new_ArrayBuffer maxByteLength fileSize of
           Inl e \<Rightarrow> Inl e
         | Inr buffer \<Rightarrow>
             (case view_sets buffer (bmp_header imageData fileSize imageSize) of
                Inl e \<Rightarrow> Inl e
              | Inr buf \<Rightarrow>
                  Inr (fst (row_loop imageData paddingSize (height imageData - 1) (buf, 54)))))"

text \<open>
  The layout the encoder is measured against: the three bytes of the pixel in column \<open>x\<close> of
  row \<open>y\<close> (blue, green, red; black where the array has no value), a row with its padding,
  and a run of bytes placed into a buffer at an offset.
\<close>

definition pixel_bytes :: "ImageData \<Rightarrow> int \<Rightarrow> int \<Rightarrow> byte list" where
  "pixel_bytes imageData y x =
     (let pixelIndex = y * width imageData + x
      in if pixelIndex < int (length (data imageData))
         then (case rgb565ToRgb (data_at (data imageData) pixelIndex) of
                 (r, g, b) \<Rightarrow> [word_of_int b, word_of_int g, word_of_int r])
         else [0, 0, 0])"

definition row_bytes :: "ImageData \<Rightarrow> nat \<Rightarrow> int \<Rightarrow> byte list" where
  "row_bytes imageData padding y =
     concat (map (pixel_bytes imageData y) [0..width imageData - 1]) @ replicate padding 0"

definition blit :: "'a list \<Rightarrow> nat \<Rightarrow> 'a list \<Rightarrow> 'a list" where
  "blit buf off bs = take off buf @ bs @ drop (off + length bs) buf"

section \<open>Regular expressions as the code uses them\<close>

text \<open>
  A string is a list of characters; a character stands for a UTF-16 code unit below 256, so the
  model covers source text in the Latin-1 range. The white-space escape (\<open>Sp\<close>) is the white
  space and line terminators of that range, the word escape (\<open>Wd\<close>) is \<open>[A-Za-z0-9_]\<close> and
  the digit escape (\<open>Dg\<close>) is \<open>[0-9]\<close>. A character class is a list of atoms, possibly
  negated.
\<close>

datatype atom = C char | Rng char char | Sp | Wd | Dg

definition is_space :: "char \<Rightarrow> bool" where
  "is_space c = (c \<in> {CHR 0x09, CHR 0x0A, CHR 0x0B, CHR 0x0C, CHR 0x0D, CHR '' '', CHR 0xA0})"

definition is_digit :: "char \<Rightarrow> bool" where
  "is_digit c = (c \<in> set ''0123456789'')"

definition is_word :: "char \<Rightarrow> bool" where
  "is_word c = (c \<in> set ''abcdefghijklmnopqrstuvwxyzABCDEFGHIJKLMNOPQRSTUVWXYZ0123456789_'')"

fun in_atom :: "atom \<Rightarrow> char \<Rightarrow> bool" where
  "in_atom (C a) c = (c = a)"
| "in_atom (Rng a b) c = ((of_char a :: nat) \<le> of_char c \<and> (of_char c :: nat) \<le> of_char b)"
| "in_atom Sp c = is_space c"
| "in_atom Wd c = is_word c"
| "in_atom Dg c = is_digit c"

datatype cclass = Pos "atom list" | Neg "atom list"

fun in_class :: "cclass \<Rightarrow> char \<Rightarrow> bool" where
  "in_class (Pos as) c = list_ex (\<lambda>a. in_atom a c) as"
| "in_class (Neg as) c = (\<not> list_ex (\<lambda>a. in_atom a c) as)"

text \<open>
  The constructs that occur in the patterns of \<^verbatim>\<open>parseHexFile\<close>. \<open>Opt\<close> and
  \<open>Star\<close> are the greedy \<^verbatim>\<open>?\<close> and \<^verbatim>\<open>*\<close>, \<open>Grp\<close> is a capturing group;
  \<^verbatim>\<open>(?:...)\<close> needs no constructor.
\<close>

datatype regex = Eps | Cls cclass | Seq regex regex | Opt regex | Star regex | Grp regex

text \<open>
  Backtracking matching: \<open>run r (s, caps)\<close> lists, in the order in which the engine tries
  them, the ways in which \<open>r\<close> can match at the beginning of \<open>s\<close>, each as the rest of
  the string and the captures closed so far. The groups of these patterns are neither nested
  nor repeated, so the captures stand in the order of the group numbers. A greedy operator
  tries the longer alternative first. An iteration of \<open>Star\<close> that consumes nothing is
  rejected, as in ECMAScript.
\<close>

function run :: "regex \<Rightarrow> string \<times> string list \<Rightarrow> (string \<times> string list) list" where
  "run Eps st = [st]"
| "run (Cls cl) (s, caps) =
     (case s of [] \<Rightarrow> [] | a # s' \<Rightarrow> if in_class cl a then [(s', caps)] else [])"
| "run (Seq r1 r2) st = concat (map (run r2) (run r1 st))"
| "run (Opt r) st = run r st @ [st]"
| "run (Star r) st =
     concat (map (\<lambda>st'. if length (fst st') < length (fst st) then run (Star r) st' else [])
                 (run r st)) @ [st]"
| "run (Grp r) (s, caps) =
     map (\<lambda>(s', caps'). (s', caps' @ [take (length s - length s') s])) (run r (s, caps))"
  by pat_completeness auto
termination
  by (relation "(\<lambda>(r, st). size r) <*mlex*> measure (\<lambda>(r, st). length (fst st))")
     (auto simp: wf_mlex mlex_less mlex_leq)

text \<open>
  \<^verbatim>\<open>r+\<close> is \<^verbatim>\<open>rr*\<close>; a literal string is the sequence of its characters; \<open>seqs\<close>
  writes a sequence as a list.
\<close>

definition plus :: "regex \<Rightarrow> regex" where
  "plus r = Seq r (Star r)"

fun lit :: "string \<Rightarrow> regex" where
  "lit [] = Eps"
| "lit (c # cs) = Seq (Cls (Pos [C c])) (lit cs)"

fun seqs :: "regex list \<Rightarrow> regex" where
  "seqs [] = Eps"
| "seqs [r] = r"
| "seqs (r # rs) = Seq r (seqs rs)"

text \<open>
  A match attempt at one start position takes the first way; \<^verbatim>\<open>String.prototype.match\<close>
  without the \<^verbatim>\<open>g\<close> flag tries the start positions from left to right and returns the
  matched text and the captures of the first success.
\<close>

definition match_here :: "regex \<Rightarrow> string \<Rightarrow> (string \<times> string list) option" where
  "match_here r s =
     (case run r (s, []) of
        [] \<Rightarrow> None
      | (s', caps) # _ \<Rightarrow> Some (take (length s - length s') s, caps))"

fun js_match :: "regex \<Rightarrow> string \<Rightarrow> (string \<times> string list) option" where
  "js_match r [] = match_here r []"
| "js_match r (a # s) =
     (case match_here r (a # s) of Some m \<Rightarrow> Some m | None \<Rightarrow> js_match r s)"

text \<open>
  The patterns of lines 35 and 47, constructor by constructor.
\<close>

definition hexdigit :: cclass where
  "hexdigit = Pos [Rng CHR ''0'' CHR ''9'', Rng CHR ''a'' CHR ''f'', Rng CHR ''A'' CHR ''F'']"

definition re_array :: regex where
  "re_array = seqs
     [Opt (seqs [lit ''const'', plus (Cls (Pos [Sp]))]),
      lit ''uint16_t'', plus (Cls (Pos [Sp])),
      Grp (plus (Cls (Pos [Wd]))),
      Star (Cls (Pos [Sp])), lit ''['', Star (Cls (Pos [Sp])),
      Opt (plus (Cls (Pos [Dg]))),
      Star (Cls (Pos [Sp])), lit '']'', Star (Cls (Pos [Sp])), lit ''='',
      Star (Cls (Pos [Sp])), lit ''{'',
      Grp (plus (Cls (Neg [C CHR ''}'']))),
      lit ''}'']"

definition re_fallback :: regex where
  "re_fallback = seqs
     [lit ''{'',
      Grp (seqs [Star (Cls (Neg [C CHR ''}''])),
                 plus (seqs [lit ''0x'', plus (Cls hexdigit), Star (Cls (Neg [C CHR ''}'']))])]),
      lit ''}'']"

text \<open>
  With the \<^verbatim>\<open>g\<close> flag, \<^verbatim>\<open>match\<close> returns the matched texts of all successive
  matches (\<^verbatim>\<open>null\<close> is the empty list here); after an empty match the search resumes one
  character further. The two lemmas are what the termination proofs need.
\<close>

lemma match_here_length:
  "match_here r s = Some (m, caps) \<Longrightarrow> length m \<le> length s"
  by (auto simp: match_here_def split: list.splits)

lemma match_here_nonempty:
  "match_here r s = Some (m, caps) \<Longrightarrow> m \<noteq> [] \<Longrightarrow> length (drop (length m) s) < length s"
  by (auto simp: match_here_def split: list.splits)

function js_match_all :: "regex \<Rightarrow> string \<Rightarrow> string list" where
  "js_match_all r s =
     (case match_here r s of
        None \<Rightarrow> (case s of [] \<Rightarrow> [] | _ # s' \<Rightarrow> js_match_all r s')
      | Some (m, caps) \<Rightarrow>
          if m = [] then (case s of [] \<Rightarrow> [[]] | _ # s' \<Rightarrow> [] # js_match_all r s')
          else m # js_match_all r (drop (length m) s))"
  by pat_completeness auto
termination
  by (relation "measure (\<lambda>(r, s). length s)") (auto dest: match_here_nonempty)

declare js_match_all.simps [simp del]

text \<open>
  \<^verbatim>\<open>String.prototype.split\<close> with a pattern: \<open>cur\<close> is the piece since the last
  separator. A separator match that is empty at the start of the piece is skipped.
\<close>

function split_loop :: "regex \<Rightarrow> string \<Rightarrow> string \<Rightarrow> string list" where
  "split_loop r cur s =
     (case s of
        [] \<Rightarrow> [cur]
      | a # s' \<Rightarrow>
          (case match_here r s of
             None \<Rightarrow> split_loop r (cur @ [a]) s'
           | Some (m, caps) \<Rightarrow>
               if m = [] \<and> cur = [] then split_loop r (cur @ [a]) s'
               else cur # split_loop r [] (drop (length m) s)))"
  by pat_completeness auto
termination
proof (relation "measure (\<lambda>(r, cur, s). 2 * length s + (if cur = [] then 0 else 1))", goal_cases)
  case 1
  show ?case by simp
next
  case (2 r cur s a s')
  then show ?case by simp
next
  case (3 r cur s a s' x m caps)
  then show ?case by simp
next
  case (4 r cur s a s' x m caps)
  then have mh: "match_here r (a # s') = Some (m, caps)" by simp
  show ?case
  proof (cases "m = []")
    case True
    with 4 show ?thesis by auto
  next
    case False
    from match_here_nonempty [OF mh False] 4 show ?thesis by simp
  qed
qed

declare split_loop.simps [simp del]

definition js_split :: "regex \<Rightarrow> string \<Rightarrow> string list" where
  "js_split r s =
     (if s = [] then (case match_here r [] of None \<Rightarrow> [[]] | Some m \<Rightarrow> [])
      else split_loop r [] s)"

text \<open>
  \<^verbatim>\<open>Array.prototype.join\<close>, \<^verbatim>\<open>String.prototype.trim\<close> and a global replacement of one
  character by another.
\<close>

fun join :: "string \<Rightarrow> string list \<Rightarrow> string" where
  "join sep [] = []"
| "join sep [x] = x"
| "join sep (x # xs) = x @ sep @ join sep xs"

definition trim :: "string \<Rightarrow> string" where
  "trim s = rev (dropWhile is_space (rev (dropWhile is_space s)))"

definition replace_char :: "char \<Rightarrow> char \<Rightarrow> string \<Rightarrow> string" where
  "replace_char a b s = map (\<lambda>c. if c = a then b else c) s"

text \<open>
  \<^verbatim>\<open>parseInt(str, 16)\<close>: leading white space is skipped, a sign and a prefix
  \<^verbatim>\<open>0x\<close> or \<^verbatim>\<open>0X\<close> are accepted, and the longest run of hexadecimal digits is the
  value; \<open>None\<close> is \<^verbatim>\<open>NaN\<close>. The digit strings parsed here have at most four digits,
  so the value is exact.
\<close>

definition hex_value :: "char \<Rightarrow> int" where
  "hex_value c =
     (if in_atom (Rng CHR ''0'' CHR ''9'') c then int (of_char c) - 48
      else if in_atom (Rng CHR ''a'' CHR ''f'') c then int (of_char c) - 87
      else int (of_char c) - 55)"

definition hex_number :: "string \<Rightarrow> int" where
  "hex_number digits = foldl (\<lambda>n d. 16 * n + hex_value d) 0 digits"

definition parseInt16 :: "string \<Rightarrow> int option" where
  "parseInt16 str =
     (let s1 = dropWhile is_space str;
          (sign, s2) = (case s1 of
                          [] \<Rightarrow> (1, s1)
                        | c # t \<Rightarrow> if c = CHR ''-'' then (- 1, t)
                                   else if c = CHR ''+'' then (1, t) else (1, s1));
          s3 = (case s2 of
                  a # b # t \<Rightarrow> if a = CHR ''0'' \<and> (b = CHR ''x'' \<or> b = CHR ''X'') then t else s2
                | _ \<Rightarrow> s2);
          digits = takeWhile (in_class hexdigit) s3
      in if digits = [] then None
         else Some (sign * hex_number digits))"

text \<open>
  The patterns of lines 53, 68 and 82. The pattern of line 68 carries the \<^verbatim>\<open>i\<close> flag, so
  its \<^verbatim>\<open>x\<close> also matches \<^verbatim>\<open>X\<close>; \<^verbatim>\<open>{1,4}\<close> is one digit followed by up to
  three optional ones, the longer alternative first.
\<close>

definition re_hex :: regex where
  "re_hex = seqs [lit ''0x'', plus (Cls hexdigit)]"

definition re_hex4 :: regex where
  "re_hex4 = seqs
     [Cls (Pos [C CHR ''0'']), Cls (Pos [C CHR ''x'', C CHR ''X'']),
      Cls hexdigit, Opt (seqs [Cls hexdigit, Opt (seqs [Cls hexdigit, Opt (Cls hexdigit)])])]"

definition re_separator :: regex where
  "re_separator = plus (Cls (Pos [C CHR '','', Sp, C (CHR 0x0A), C (CHR 0x0D)]))"

text \<open>
  Value extraction, lines 65 to 96. The candidates are the results of \<^verbatim>\<open>parseInt\<close> in the
  order of the loop; a candidate is pushed when it passes the test of lines 73 and 91.
\<close>

definition in_range :: "int option \<Rightarrow> bool" where
  "in_range v = (case v of None \<Rightarrow> False | Some hexVal \<Rightarrow> 0 \<le> hexVal \<and> hexVal \<le> 0xFFFF)"

definition direct_candidates :: "string \<Rightarrow> int option list" where
  "direct_candidates hexDataString = map parseInt16 (js_match_all re_hex4 hexDataString)"

definition direct_values :: "string \<Rightarrow> int list" where
  "direct_values hexDataString = map the (filter in_range (direct_candidates hexDataString))"

definition fallback_candidates :: "string \<Rightarrow> int option list" where
  "fallback_candidates hexDataString =
     (let potentialValues =
            filter (\<lambda>val. 0 < length val) (map trim (js_split re_separator hexDataString));
          cleanVals = map (filter (in_class hexdigit)) potentialValues
      in map (\<lambda>cleanVal. parseInt16 (''0x'' @ cleanVal))
           (filter (\<lambda>cleanVal. 3 \<le> length cleanVal \<and> length cleanVal \<le> 4) cleanVals))"

definition fallback_values :: "string \<Rightarrow> int list" where
  "fallback_values hexDataString = map the (filter in_range (fallback_candidates hexDataString))"

definition hex_values :: "string \<Rightarrow> int list" where
  "hex_values hexDataString =
     (let hexValues = direct_values hexDataString
      in if length hexValues = 0 then fallback_values hexDataString else hexValues)"

text \<open>
  The three tiers of lines 35 to 62, returning \<^verbatim>\<open>arrayName\<close> and
  \<^verbatim>\<open>hexDataString\<close>. Both groups of the first pattern and the group of the second take
  part in every match, so the captures always have the expected number.
\<close>

definition extract_block :: "string \<Rightarrow> error + string \<times> string" where
  "extract_block content =
     (case js_match re_array content of
        Some (m, caps) \<Rightarrow>
          (case caps of [arrayName, hexDataString] \<Rightarrow> Inr (arrayName, hexDataString)
                      | _ \<Rightarrow> Inr ([], []))
      | None \<Rightarrow>
          (let singleLineContent =
                 replace_char (CHR 0x0D) CHR '' '' (replace_char (CHR 0x0A) CHR '' '' content)
           in case js_match re_fallback singleLineContent of
                Some (m, caps) \<Rightarrow>
                  (case caps of [hexDataString] \<Rightarrow> Inr (''parsed_array'', hexDataString)
                              | _ \<Rightarrow> Inr ([], []))
              | None \<Rightarrow>
                  (let allHexMatches = js_match_all re_hex content
                   in if 0 < length allHexMatches
                      then Inr (''extracted_hex_values'', join '', '' allHexMatches)
                      else Inl NoHexValuesFound)))"

text \<open>
  \<^verbatim>\<open>parseHexFile\<close> on the text of the file.
\<close>

definition parseHexFile :: "string \<Rightarrow> error + ImageData" where
  "parseHexFile content =
     (case extract_block content of
        Inl e \<Rightarrow> Inl e
      | Inr (arrayName, hexDataString) \<Rightarrow>
          (let hexValues = hex_values hexDataString
           in if length hexValues = 0 then Inl NoValidHexValues
              else (case resolveDimensions (length hexValues) of
                      (w, h) \<Rightarrow> Inr \<lparr>width = int w, height = int h,
                                       data = hexValues, name = arrayName\<rparr>)))"

section \<open>Notions used to state and prove the claims\<close>

text \<open>
  A text has a token when \<open>0x\<close> followed by a hexadecimal digit occurs somewhere in it.
\<close>

fun has_token :: "string \<Rightarrow> bool" where
  "has_token (a # b # c # s) =
     ((a = CHR ''0'' \<and> b = CHR ''x'' \<and> in_class hexdigit c) \<or> has_token (b # c # s))"
| "has_token _ = False"

text \<open>
  The language of a pattern, and the states a pattern without groups can reach: the matcher is
  proved to reach exactly those below.
\<close>

inductive_set star :: "string set \<Rightarrow> string set" for A :: "string set" where
  star_Nil: "[] \<in> star A"
| star_App: "u \<in> A \<Longrightarrow> v \<in> star A \<Longrightarrow> u @ v \<in> star A"

fun lang :: "regex \<Rightarrow> string set" where
  "lang Eps = {[]}"
| "lang (Cls cl) = {[a] | a. in_class cl a}"
| "lang (Seq r1 r2) = {u @ v | u v. u \<in> lang r1 \<and> v \<in> lang r2}"
| "lang (Opt r) = insert [] (lang r)"
| "lang (Star r) = star (lang r)"
| "lang (Grp r) = lang r"

fun nogrp :: "regex \<Rightarrow> bool" where
  "nogrp Eps = True"
| "nogrp (Cls cl) = True"
| "nogrp (Seq r1 r2) = (nogrp r1 \<and> nogrp r2)"
| "nogrp (Opt r) = nogrp r"
| "nogrp (Star r) = nogrp r"
| "nogrp (Grp r) = False"

definition reach :: "regex \<Rightarrow> string \<Rightarrow> string list \<Rightarrow> (string \<times> string list) set" where
  "reach r s caps = {(s', caps) | s'. \<exists>u \<in> lang r. s = u @ s'}"

fun charset :: "regex \<Rightarrow> char \<Rightarrow> bool" where
  "charset Eps c = False"
| "charset (Cls cl) c = in_class cl c"
| "charset (Seq r1 r2) c = (charset r1 c \<or> charset r2 c)"
| "charset (Opt r) c = charset r c"
| "charset (Star r) c = charset r c"
| "charset (Grp r) c = charset r c"

text \<open>
  The characters a match of the pattern of line 68 consists of, and those between the name and
  the opening brace of a declaration.
\<close>

definition tokchar :: "char \<Rightarrow> bool" where
  "tokchar c = (in_class hexdigit c \<or> c = CHR ''x'' \<or> c = CHR ''X'')"

definition midchar :: "char \<Rightarrow> bool" where
  "midchar c = (is_space c \<or> is_digit c \<or> c = CHR ''['' \<or> c = CHR '']'' \<or> c = CHR ''='')"

text \<open>
  The pattern of line 35 in three parts: the optional qualifier, the part between the name and
  the opening brace, and everything from the type on.
\<close>

definition re_const :: regex where
  "re_const = seqs [lit ''const'', plus (Cls (Pos [Sp]))]"

definition re_array_middle :: regex where
  "re_array_middle = seqs
     [Star (Cls (Pos [Sp])), lit ''['', Star (Cls (Pos [Sp])),
      Opt (plus (Cls (Pos [Dg]))),
      Star (Cls (Pos [Sp])), lit '']'', Star (Cls (Pos [Sp])), lit ''='',
      Star (Cls (Pos [Sp])), lit ''{'']"

definition re_array_body :: regex where
  "re_array_body = seqs
     [lit ''uint16_t'', plus (Cls (Pos [Sp])), Grp (plus (Cls (Pos [Wd]))),
      re_array_middle, Grp (plus (Cls (Neg [C CHR ''}'']))), lit ''}'']"

section \<open>Lemmas: bitwise operators on small operands\<close>

lemma ToInt32_id: "- (2 ^ 31) \<le> x \<Longrightarrow> x < 2 ^ 31 \<Longrightarrow> ToInt32 x = x"
  unfolding ToInt32_def by (simp add: signed_take_bit_int_eq_self)

lemma js_shr_small: "0 \<le> a \<Longrightarrow> a < 2 ^ 31 \<Longrightarrow> n < 32 \<Longrightarrow> js_shr a n = drop_bit n a"
  by (simp add: js_shr_def ToInt32_id)

lemma js_and_small:
  "0 \<le> a \<Longrightarrow> a < 2 ^ 31 \<Longrightarrow> 0 \<le> b \<Longrightarrow> b < 2 ^ 31 \<Longrightarrow> js_and a b = a AND b"
  by (simp add: js_and_def ToInt32_id)

lemma js_or_small:
  "0 \<le> a \<Longrightarrow> a < 2 ^ 31 \<Longrightarrow> 0 \<le> b \<Longrightarrow> b < 2 ^ 31 \<Longrightarrow> js_or a b = a OR b"
  by (simp add: js_or_def ToInt32_id)

lemma js_shl_small:
  "0 \<le> a \<Longrightarrow> a < 2 ^ 28 \<Longrightarrow> n \<le> 3 \<Longrightarrow> js_shl a n = push_bit n a"
proof -
  assume a: "0 \<le> a" "a < 2 ^ 28" and n: "n \<le> 3"
  have "push_bit n a = a * 2 ^ n" by (simp add: push_bit_eq_mult)
  also have "\<dots> \<le> a * 2 ^ 3" using a n by (intro mult_left_mono power_increasing) auto
  also have "\<dots> < 2 ^ 31" using a by simp
  finally have up: "push_bit n a < 2 ^ 31" .
  have lo: "0 \<le> push_bit n a" using a by simp
  have nm: "n mod 32 = n" using n by simp
  have ia: "ToInt32 a = a" using a by (intro ToInt32_id) simp_all
  have "ToInt32 (push_bit n a) = push_bit n a" using up lo by (intro ToInt32_id) linarith+
  then show ?thesis by (simp only: js_shl_def nm ia)
qed

lemma take_bit_bounds: "0 \<le> take_bit n (k::int) \<and> take_bit n k < 2 ^ n"
  by simp

lemma chan_small:
  assumes "0 \<le> v" "v < 64"
  shows "js_or (js_shl v 3) (js_shr v 2) = push_bit 3 v OR drop_bit 2 v"
    and "js_or (js_shl v 2) (js_shr v 4) = push_bit 2 v OR drop_bit 4 v"
proof -
  have p3: "push_bit 3 v = v * 8" and p2: "push_bit 2 v = v * 4" by (simp_all add: push_bit_eq_mult)
  have d2: "drop_bit 2 v = v div 4" and d4: "drop_bit 4 v = v div 16" by (simp_all add: drop_bit_eq_div)
  have s3: "js_shl v 3 = push_bit 3 v" and s2: "js_shl v 2 = push_bit 2 v"
    using assms by (simp_all add: js_shl_small)
  have r2: "js_shr v 2 = drop_bit 2 v" and r4: "js_shr v 4 = drop_bit 4 v"
    using assms by (simp_all add: js_shr_small)
  show "js_or (js_shl v 3) (js_shr v 2) = push_bit 3 v OR drop_bit 2 v"
    unfolding s3 r2 using assms by (intro js_or_small) (simp_all add: p3 d2)
  show "js_or (js_shl v 2) (js_shr v 4) = push_bit 2 v OR drop_bit 4 v"
    unfolding s2 r4 using assms by (intro js_or_small) (simp_all add: p2 d4)
qed

lemma fields_small:
  assumes "0 \<le> x" "x < 2 ^ 16"
  shows "js_and (js_shr x 11) 0x1F = take_bit 5 (drop_bit 11 x)"
    and "js_and (js_shr x 5) 0x3F = take_bit 6 (drop_bit 5 x)"
    and "js_and x 0x1F = take_bit 5 x"
proof -
  have x31: "x < 2 ^ 31" using assms by simp
  have m5: "(31::int) = mask 5" and m6: "(63::int) = mask 6" by (simp_all add: mask_eq_exp_minus_1)
  have d11: "0 \<le> drop_bit 11 x" "drop_bit 11 x < 2 ^ 31"
    using assms by (simp_all add: drop_bit_eq_div) 
  have d5: "0 \<le> drop_bit 5 x" "drop_bit 5 x < 2 ^ 31"
    using assms by (simp_all add: drop_bit_eq_div)
  show "js_and (js_shr x 11) 0x1F = take_bit 5 (drop_bit 11 x)"
    using assms x31 d11 by (simp add: js_shr_small js_and_small take_bit_eq_mask m5 [symmetric])
  show "js_and (js_shr x 5) 0x3F = take_bit 6 (drop_bit 5 x)"
    using assms x31 d5 by (simp add: js_shr_small js_and_small take_bit_eq_mask m6 [symmetric])
  show "js_and x 0x1F = take_bit 5 x"
    using assms x31 by (simp add: js_and_small take_bit_eq_mask m5 [symmetric])
qed

lemma rgb565ToRgb_small:
  assumes "0 \<le> x" "x < 2 ^ 16"
  shows "rgb565ToRgb x =
     (expand5 (take_bit 5 (drop_bit 11 x)), expand6 (take_bit 6 (drop_bit 5 x)), expand5 (take_bit 5 x))"
proof -
  have b5: "\<And>k::int. take_bit 5 k < 64"
  proof -
    fix k :: int
    show "take_bit 5 k < 64" using take_bit_int_less_exp [of 5 k] by simp
  qed
  have b6: "\<And>k::int. take_bit 6 k < 64"
  proof -
    fix k :: int
    show "take_bit 6 k < 64" using take_bit_int_less_exp [of 6 k] by simp
  qed
  show ?thesis
    unfolding rgb565ToRgb_def Let_def fields_small [OF assms] expand5_def expand6_def
    by (simp add: chan_small b5 b6)
qed

lemma expand5_bounds: "0 \<le> v \<Longrightarrow> v < 32 \<Longrightarrow> 0 \<le> expand5 v \<and> expand5 v \<le> 255"
proof -
  assume a: "0 \<le> v" "v < 32"
  have "push_bit 3 v < 2 ^ 8" using a by (simp add: push_bit_eq_mult)
  moreover have "drop_bit 2 v < 2 ^ 8" using a by (simp add: drop_bit_eq_div)
  moreover have "0 \<le> push_bit 3 v" using a by simp
  ultimately have "push_bit 3 v OR drop_bit 2 v < 2 ^ 8" by (rule_tac OR_upper)
  then show ?thesis using a by (simp add: expand5_def)
qed

lemma expand6_bounds: "0 \<le> v \<Longrightarrow> v < 64 \<Longrightarrow> 0 \<le> expand6 v \<and> expand6 v \<le> 255"
proof -
  assume a: "0 \<le> v" "v < 64"
  have "push_bit 2 v < 2 ^ 8" using a by (simp add: push_bit_eq_mult)
  moreover have "drop_bit 4 v < 2 ^ 8" using a by (simp add: drop_bit_eq_div)
  moreover have "0 \<le> push_bit 2 v" using a by simp
  ultimately have "push_bit 2 v OR drop_bit 4 v < 2 ^ 8" by (rule_tac OR_upper)
  then show ?thesis using a by (simp add: expand6_def)
qed


section \<open>Lemmas: the integer square root and the candidate list\<close>

lemma floor_sqrt_small: "floor_sqrt 0 = 0" "floor_sqrt (Suc 0) = Suc 0"
  by (simp_all add: floor_sqrt.simps)

lemma floor_sqrt_correct: "floor_sqrt n * floor_sqrt n \<le> n \<and> n < (floor_sqrt n + 1) * (floor_sqrt n + 1)"
proof (induction n rule: floor_sqrt.induct)
  case (1 n)
  show ?case
  proof (cases "n < 2")
    case True
    then have "n = 0 \<or> n = 1" by auto
    then show ?thesis by (auto simp: floor_sqrt_small)
  next
    case False
    define q where "q = floor_sqrt (n div 4)"
    have ih: "q * q \<le> n div 4" "n div 4 < (q + 1) * (q + 1)"
      using 1 False by (simp_all add: q_def)
    have lo: "(2 * q) * (2 * q) \<le> n"
    proof -
      have "4 * (q * q) \<le> 4 * (n div 4)" using ih(1) by simp
      also have "\<dots> \<le> n" by simp
      finally show ?thesis by (simp add: algebra_simps)
    qed
    have hi: "n < (2 * q + 2) * (2 * q + 2)"
    proof -
      have "n div 4 + 1 \<le> (q + 1) * (q + 1)" using ih(2) by simp
      then have "4 * (n div 4 + 1) \<le> 4 * ((q + 1) * (q + 1))" by simp
      moreover have "n < 4 * (n div 4 + 1)" by presburger
      ultimately have "n < 4 * ((q + 1) * (q + 1))" by linarith
      then show ?thesis by (simp add: algebra_simps)
    qed
    have eq: "floor_sqrt n = (if (2 * q + 1) * (2 * q + 1) \<le> n then 2 * q + 1 else 2 * q)"
      using False by (subst floor_sqrt.simps) (simp add: q_def Let_def)
    show ?thesis
    proof (cases "(2 * q + 1) * (2 * q + 1) \<le> n")
      case True
      then show ?thesis using hi eq by (simp add: algebra_simps)
    next
      case False
      then show ?thesis using lo eq by (simp add: algebra_simps)
    qed
  qed
qed


lemma fold_unshift_keeps:
  "x \<in> set dims \<Longrightarrow>
     x \<in> set (fold (\<lambda>res dims. if fst res * snd res = (n::nat)
                       then (Num (fst res), Num (snd res)) # dims else dims) rs dims)"
  by (induction rs arbitrary: dims) simp_all

lemma possibleDimensions_in: "(Num N, Num 1) \<in> set (possibleDimensions N)"
  unfolding possibleDimensions_def by (rule fold_unshift_keeps) simp

text \<open>What the code returns for each pixel count that a table entry produces.\<close>

lemma resolveDimensions_table_values:
  "resolveDimensions 16384 = (128, 128)" "resolveDimensions 4096 = (64, 64)"
  "resolveDimensions 1024 = (32, 32)" "resolveDimensions 256 = (16, 16)"
  "resolveDimensions 76800 = (240, 320)" "resolveDimensions 20480 = (160, 128)"
  "resolveDimensions 8192 = (64, 128)" "resolveDimensions 6144 = (64, 96)"
  by (simp_all add: resolveDimensions_def possibleDimensions_def commonResolutions_def)

section \<open>Lemmas: the loops of the encoder write consecutive bytes\<close>

lemma blit_Nil [simp]: "blit buf off [] = buf"
  by (simp add: blit_def)

lemma length_blit: "off + length bs \<le> length buf \<Longrightarrow> length (blit buf off bs) = length buf"
  by (simp add: blit_def)

lemma blit_blit:
  "off + length u + length v \<le> length buf \<Longrightarrow>
     blit (blit buf off u) (off + length u) v = blit buf off (u @ v)"
  by (simp add: blit_def ac_simps)

lemma update_blit: "off < length buf \<Longrightarrow> buf[off := a] = blit buf off [a]"
  by (simp add: blit_def upd_conv_take_nth_drop)

lemma update3_blit:
  assumes "off + 3 \<le> length buf"
  shows "buf[off := a, off + 1 := b, off + 2 := c] = blit buf off [a, b, c]"
proof -
  have 1: "buf[off := a] = blit buf off [a]" using assms by (simp add: update_blit)
  have 2: "(blit buf off [a])[off + 1 := b] = blit (blit buf off [a]) (off + length [a]) [b]"
    using assms by (simp add: update_blit length_blit)
  have 3: "blit (blit buf off [a]) (off + length [a]) [b] = blit buf off ([a] @ [b])"
    using assms by (intro blit_blit) simp
  have 4: "(blit buf off [a, b])[off + 2 := c] = blit (blit buf off [a, b]) (off + length [a, b]) [c]"
    using assms by (simp add: update_blit length_blit)
  have 5: "blit (blit buf off [a, b]) (off + length [a, b]) [c] = blit buf off ([a, b] @ [c])"
    using assms by (intro blit_blit) simp
  show ?thesis using 1 2 3 4 5 by simp
qed

lemma update3_blit_Suc:
  "off + 3 \<le> length buf \<Longrightarrow>
     buf[off := a, Suc off := b, Suc (Suc off) := c] = blit buf off [a, b, c]"
  using update3_blit [of off buf a b c] by simp

lemma length_pixel_bytes [simp]: "length (pixel_bytes imageData y x) = 3"
  by (simp add: pixel_bytes_def Let_def split: prod.splits)

lemma pixel_loop_step:
  "x < width imageData \<Longrightarrow> off + 3 \<le> length buf \<Longrightarrow>
     pixel_loop imageData y x (buf, off) =
       pixel_loop imageData y (x + 1) (blit buf off (pixel_bytes imageData y x), off + 3)"
  by (subst pixel_loop.simps)
     (auto simp: pixel_bytes_def Let_def update3_blit_Suc split: prod.splits)

lemma length_concat_pixels:
  "length (concat (map (pixel_bytes imageData y) [x..z])) = 3 * nat (z + 1 - x)"
proof (induction "nat (z + 1 - x)" arbitrary: x)
  case 0
  then show ?case by simp
next
  case (Suc n)
  then have le: "x \<le> z" by linarith
  have "n = nat (z + 1 - (x + 1))" using Suc(2) by linarith
  from Suc(1) [OF this] show ?case using le by (simp add: upto_rec1 [of x z]) 
qed

lemma pixel_loop_blit:
  "0 \<le> x \<Longrightarrow> x \<le> width imageData \<Longrightarrow> off + 3 * nat (width imageData - x) \<le> length buf \<Longrightarrow>
     pixel_loop imageData y x (buf, off) =
       (blit buf off (concat (map (pixel_bytes imageData y) [x..width imageData - 1])),
        off + 3 * nat (width imageData - x))"
proof (induction "nat (width imageData - x)" arbitrary: x buf off)
  case 0
  then have "x = width imageData" by simp
  then show ?case by (subst pixel_loop.simps) simp
next
  case (Suc n)
  then have lt: "x < width imageData" by linarith
  have room: "off + 3 \<le> length buf" using lt Suc.prems(3) by linarith
  let ?buf' = "blit buf off (pixel_bytes imageData y x)"
  have len': "length ?buf' = length buf" using room by (simp add: length_blit)
  have step: "pixel_loop imageData y x (buf, off) = pixel_loop imageData y (x + 1) (?buf', off + 3)"
    using lt room by (rule pixel_loop_step)
  have n: "3 * nat (width imageData - x) = 3 + 3 * nat (width imageData - (x + 1))"
    using lt by linarith
  have n': "n = nat (width imageData - (x + 1))" using Suc(2) by linarith
  have ih: "pixel_loop imageData y (x + 1) (?buf', off + 3) =
      (blit ?buf' (off + 3) (concat (map (pixel_bytes imageData y) [x + 1..width imageData - 1])),
       off + 3 + 3 * nat (width imageData - (x + 1)))"
    using Suc.prems lt n len' by (intro Suc(1) [OF n']) simp_all
  have "blit ?buf' (off + length (pixel_bytes imageData y x))
          (concat (map (pixel_bytes imageData y) [x + 1..width imageData - 1]))
        = blit buf off (pixel_bytes imageData y x @
             concat (map (pixel_bytes imageData y) [x + 1..width imageData - 1]))"
    using Suc.prems(3) lt by (intro blit_blit) (simp add: length_concat_pixels n)
  moreover have "[x..width imageData - 1] = x # [x + 1..width imageData - 1]"
    using lt by (simp add: upto_rec1)
  ultimately show ?case using step ih n by simp
qed


lemma padding_loop_blit:
  "0 \<le> p \<Longrightarrow> p \<le> paddingSize \<Longrightarrow> off + nat (paddingSize - p) \<le> length buf \<Longrightarrow>
     padding_loop paddingSize p (buf, off) =
       (blit buf off (replicate (nat (paddingSize - p)) 0), off + nat (paddingSize - p))"
proof (induction "nat (paddingSize - p)" arbitrary: p buf off)
  case 0
  then have "p = paddingSize" by simp
  then show ?case by (subst padding_loop.simps) simp
next
  case (Suc n)
  then have lt: "p < paddingSize" by linarith
  have room: "off < length buf" using lt Suc.prems(3) by linarith
  let ?buf' = "blit buf off [0]"
  have len': "length ?buf' = length buf" using room by (simp add: length_blit)
  have step: "padding_loop paddingSize p (buf, off) = padding_loop paddingSize (p + 1) (?buf', off + 1)"
    using lt room by (subst padding_loop.simps) (simp add: update_blit)
  have n': "n = nat (paddingSize - (p + 1))" using Suc(2) by linarith
  have n: "nat (paddingSize - p) = Suc n" using Suc(2) by simp
  have "padding_loop paddingSize (p + 1) (?buf', off + 1) =
      (blit ?buf' (off + 1) (replicate (nat (paddingSize - (p + 1))) 0),
       off + 1 + nat (paddingSize - (p + 1)))"
    using Suc.prems lt len' n n' by (intro Suc(1) [OF n']) simp_all
  then have ih: "padding_loop paddingSize (p + 1) (?buf', off + 1) =
      (blit ?buf' (off + 1) (replicate n 0), off + 1 + n)"
    using n' by simp
  have "blit ?buf' (off + length [0::byte]) (replicate n 0) = blit buf off ([0] @ replicate n 0)"
    using Suc.prems(3) n by (intro blit_blit) simp
  then show ?case using step ih n by simp
qed

lemma length_row_bytes:
  "0 \<le> width imageData \<Longrightarrow> length (row_bytes imageData padding y) = 3 * nat (width imageData) + padding"
  by (simp add: row_bytes_def length_concat_pixels)

lemma row_step:
  assumes "0 \<le> width imageData" "0 \<le> paddingSize"
    and "off + (3 * nat (width imageData) + nat paddingSize) \<le> length buf"
  shows "padding_loop paddingSize 0 (pixel_loop imageData y 0 (buf, off)) =
     (blit buf off (row_bytes imageData (nat paddingSize) y),
      off + (3 * nat (width imageData) + nat paddingSize))"
proof -
  let ?px = "concat (map (pixel_bytes imageData y) [0..width imageData - 1])"
  have lpx: "length ?px = 3 * nat (width imageData)" by (simp add: length_concat_pixels)
  have 1: "pixel_loop imageData y 0 (buf, off) = (blit buf off ?px, off + 3 * nat (width imageData))"
    using assms pixel_loop_blit [of 0 imageData off buf y] by simp
  have len: "length (blit buf off ?px) = length buf"
    using assms lpx by (simp add: length_blit)
  have 2: "padding_loop paddingSize 0 (blit buf off ?px, off + 3 * nat (width imageData)) =
      (blit (blit buf off ?px) (off + 3 * nat (width imageData)) (replicate (nat paddingSize) 0),
       off + 3 * nat (width imageData) + nat paddingSize)"
    using assms len padding_loop_blit [of 0 paddingSize "off + 3 * nat (width imageData)" "blit buf off ?px"]
    by simp
  have 3: "blit (blit buf off ?px) (off + length ?px) (replicate (nat paddingSize) 0) =
      blit buf off (?px @ replicate (nat paddingSize) 0)"
    using assms lpx by (intro blit_blit) simp
  show ?thesis using 1 2 3 lpx by (simp add: row_bytes_def)
qed

lemma length_concat_rows:
  "0 \<le> width imageData \<Longrightarrow>
     length (concat (map (row_bytes imageData padding) ys)) =
       (3 * nat (width imageData) + padding) * length ys"
  by (induction ys) (simp_all add: length_row_bytes)

lemma row_loop_blit:
  assumes "0 \<le> width imageData" "0 \<le> paddingSize"
  shows "- 1 \<le> y \<Longrightarrow>
     off + (3 * nat (width imageData) + nat paddingSize) * nat (y + 1) \<le> length buf \<Longrightarrow>
     row_loop imageData paddingSize y (buf, off) =
       (blit buf off (concat (map (row_bytes imageData (nat paddingSize)) (rev [0..y]))),
        off + (3 * nat (width imageData) + nat paddingSize) * nat (y + 1))"
proof (induction "nat (y + 1)" arbitrary: y buf off)
  case 0
  then have "y = - 1" by simp
  then show ?case by (subst row_loop.simps) simp
next
  case (Suc n)
  let ?K = "3 * nat (width imageData) + nat paddingSize"
  let ?row = "row_bytes imageData (nat paddingSize) y"
  from Suc have y0: "0 \<le> y" by linarith
  have n: "nat (y + 1) = Suc n" using Suc(2) by simp
  have n': "n = nat (y - 1 + 1)" using Suc(2) by linarith
  have room: "off + ?K * Suc n \<le> length buf" using Suc.prems(2) n by simp
  then have room1: "off + ?K \<le> length buf" by simp
  have lrow: "length ?row = ?K" using assms by (simp add: length_row_bytes)
  have len': "length (blit buf off ?row) = length buf" using room1 lrow by (simp add: length_blit)
  have step: "row_loop imageData paddingSize y (buf, off) =
      row_loop imageData paddingSize (y - 1) (blit buf off ?row, off + ?K)"
    using y0 row_step [OF assms room1, of y] by (subst row_loop.simps) simp
  have "row_loop imageData paddingSize (y - 1) (blit buf off ?row, off + ?K) =
      (blit (blit buf off ?row) (off + ?K)
         (concat (map (row_bytes imageData (nat paddingSize)) (rev [0..y - 1]))),
       off + ?K + ?K * nat (y - 1 + 1))"
    using y0 room len' n' by (intro Suc(1) [OF n']) simp_all
  then have ih: "row_loop imageData paddingSize (y - 1) (blit buf off ?row, off + ?K) =
      (blit (blit buf off ?row) (off + ?K)
         (concat (map (row_bytes imageData (nat paddingSize)) (rev [0..y - 1]))),
       off + ?K + ?K * n)"
    using n' by simp
  have lrest: "length (concat (map (row_bytes imageData (nat paddingSize)) (rev [0..y - 1]))) = ?K * n"
    using assms y0 n' by (simp add: length_concat_rows)
  have "blit (blit buf off ?row) (off + length ?row)
          (concat (map (row_bytes imageData (nat paddingSize)) (rev [0..y - 1]))) =
        blit buf off (?row @ concat (map (row_bytes imageData (nat paddingSize)) (rev [0..y - 1])))"
    using room lrow lrest by (intro blit_blit) simp
  moreover have "rev [0..y] = y # rev [0..y - 1]" using y0 by (simp add: upto_rec2)
  ultimately show ?case using step ih n lrow by simp
qed


lemma length_le_bytes [simp]: "length (le_bytes n v) = n"
  by (induction n arbitrary: v) simp_all

lemma dv_set_header:
  assumes "byteOffset + n \<le> 54" "54 \<le> length buf"
  shows "\<exists>buf'. dv_set n buf byteOffset v = Inr buf' \<and> length buf' = length buf \<and>
           drop 54 buf' = drop 54 buf"
  using assms by (simp add: dv_set_def)

lemma view_sets_header:
  "(\<And>s byteOffset v. (s, byteOffset, v) \<in> set ws \<Longrightarrow> byteOffset + setter_size s \<le> 54) \<Longrightarrow>
   54 \<le> length buf \<Longrightarrow>
   \<exists>buf'. view_sets buf ws = Inr buf' \<and> length buf' = length buf \<and> drop 54 buf' = drop 54 buf"
proof (induction ws arbitrary: buf)
  case Nil
  then show ?case by simp
next
  case (Cons w ws)
  obtain s byteOffset v where w: "w = (s, byteOffset, v)" by (cases w)
  have "byteOffset + setter_size s \<le> 54" using Cons.prems(1) [of s byteOffset v] w by simp
  from dv_set_header [OF this Cons.prems(2), of v]
  obtain buf1 where 1: "dv_set (setter_size s) buf byteOffset v = Inr buf1"
    "length buf1 = length buf" "drop 54 buf1 = drop 54 buf" by blast
  have "\<exists>buf'. view_sets buf1 ws = Inr buf' \<and> length buf' = length buf1 \<and> drop 54 buf' = drop 54 buf1"
    using Cons.prems 1(2) by (intro Cons.IH) auto
  then show ?case using 1 w by auto
qed

lemma bmp_header_offsets:
  "(s, byteOffset, v) \<in> set (bmp_header imageData fileSize imageSize) \<Longrightarrow>
     byteOffset + setter_size s \<le> 54"
  by (auto simp: bmp_header_def)

lemma js_rem_nonneg: "0 \<le> a \<Longrightarrow> 0 < b \<Longrightarrow> js_rem a b = a mod b"
  by (cases "a = 0") (simp_all add: js_rem_def)

lemma paddingSize_eq:
  "0 \<le> w \<Longrightarrow> js_rem (4 - js_rem (w * 3) 4) 4 = (4 - (w * 3) mod 4) mod 4"
proof -
  assume w: "0 \<le> w"
  have 1: "js_rem (w * 3) 4 = (w * 3) mod 4" using w by (intro js_rem_nonneg) simp_all
  have "(w * 3) mod 4 < 4" by simp
  then have "0 \<le> 4 - (w * 3) mod 4" by linarith
  then have "js_rem (4 - (w * 3) mod 4) 4 = (4 - (w * 3) mod 4) mod 4"
    by (intro js_rem_nonneg) simp_all
  then show ?thesis using 1 by simp
qed

lemma createBMP_layout_header:
  assumes w: "0 \<le> width imageData" and h: "0 \<le> height imageData"
    and fits: "54 + (width imageData * 3 + (4 - (width imageData * 3) mod 4) mod 4)
                 * height imageData \<le> int maxByteLength"
  shows "\<exists>hdr buf n fileSize imageSize.
           view_sets (replicate n 0) (bmp_header imageData fileSize imageSize) = Inr buf \<and>
           hdr = take 54 buf \<and> length hdr = 54 \<and>
           createBMP maxByteLength imageData =
             Inr (hdr @ concat (map (row_bytes imageData (nat ((4 - (width imageData * 3) mod 4) mod 4)))
                                 (rev [0..height imageData - 1])))"
proof -
  define pad where "pad = (4 - (width imageData * 3) mod 4) mod 4"
  define K where "K = 3 * nat (width imageData) + nat pad"
  define rows where "rows = concat (map (row_bytes imageData (nat pad)) (rev [0..height imageData - 1]))"
  have pad0: "0 \<le> pad" by (simp add: pad_def)
  have padeq: "js_rem (4 - js_rem (width imageData * 3) 4) 4 = pad"
    using w by (simp add: paddingSize_eq pad_def)
  have rowSize: "width imageData * 3 + pad = int K" using w pad0 by (simp add: K_def)
  have fs: "54 + int K * height imageData = int (54 + K * nat (height imageData))"
    using h by simp
  have fs0: "\<not> 54 + int K * height imageData < 0" using fs by linarith
  let ?buf0 = "replicate (54 + K * nat (height imageData)) (0::byte)"
  obtain buf where buf: "view_sets ?buf0
       (bmp_header imageData (54 + int K * height imageData) (int K * height imageData)) = Inr buf"
     "length buf = 54 + K * nat (height imageData)"
    using view_sets_header [of _ ?buf0, OF bmp_header_offsets] by fastforce
  have lrows: "length rows = K * nat (height imageData)"
    using w h by (simp add: rows_def length_concat_rows K_def)
  have loop: "row_loop imageData pad (height imageData - 1) (buf, 54) =
      (blit buf 54 rows, 54 + K * nat (height imageData - 1 + 1))"
    unfolding rows_def K_def using w pad0 h buf(2)
    by (intro row_loop_blit) (simp_all add: K_def)
  have bl: "blit buf 54 rows = take 54 buf @ rows" using lrows buf(2) by (simp add: blit_def)
  have nfs: "nat (54 + int K * height imageData) = 54 + K * nat (height imageData)"
    using fs by linarith
  have "54 + int K * height imageData \<le> int maxByteLength"
    using fits unfolding pad_def [symmetric] rowSize .
  then have alloc: "new_ArrayBuffer maxByteLength (54 + int K * height imageData) = Inr ?buf0"
    using fs0 nfs by (simp add: new_ArrayBuffer_def)
  have main: "createBMP maxByteLength imageData = Inr (take 54 buf @ rows)"
    unfolding createBMP_def Let_def padeq rowSize
    by (simp only: alloc buf(1) sum.case loop fst_conv bl)
  have "length (take 54 buf) = 54" using buf(2) by simp
  then show ?thesis using main buf(1) unfolding rows_def pad_def by blast
qed


lemma concat_block:
  "(\<And>y. y \<in> set ys \<Longrightarrow> length (f y) = k) \<Longrightarrow> i < length ys \<Longrightarrow> j + n \<le> k \<Longrightarrow>
     take n (drop (i * k + j) (concat (map f ys))) = take n (drop j (f (ys ! i)))"
proof (induction ys arbitrary: i)
  case Nil
  then show ?case by simp
next
  case (Cons y ys)
  have ly: "length (f y) = k" using Cons.prems(1) by simp
  show ?case
  proof (cases i)
    case 0
    then show ?thesis using ly Cons.prems(3) by simp
  next
    case (Suc i')
    have "take n (drop (i' * k + j) (concat (map f ys))) = take n (drop j (f (ys ! i')))"
      using Cons.prems Suc by (intro Cons.IH) auto
    moreover have "drop (i * k + j) (concat (map f (y # ys))) = drop (i' * k + j) (concat (map f ys))"
      using Suc ly by simp
    ultimately show ?thesis using Suc by simp
  qed
qed

lemma row_bytes_pixel:
  assumes "0 \<le> x" "x < width imageData"
  shows "take 3 (drop (3 * nat x) (row_bytes imageData padding y)) = pixel_bytes imageData y x"
proof -
  let ?A = "concat (map (pixel_bytes imageData y) [0..width imageData - 1])"
  have lA: "length ?A = 3 * nat (width imageData)" by (simp add: length_concat_pixels)
  have fit: "3 * nat x + 3 \<le> length ?A" using assms lA by linarith
  have "take 3 (drop (3 * nat x) (?A @ replicate padding 0)) = take 3 (drop (3 * nat x) ?A)"
    using fit by simp
  also have "\<dots> = take 3 (drop (nat x * 3 + 0) ?A)" by (simp add: mult.commute)
  also have "\<dots> = take 3 (drop 0 (pixel_bytes imageData y ([0..width imageData - 1] ! nat x)))"
    using assms by (intro concat_block) simp_all
  also have "[0..width imageData - 1] ! nat x = x" using assms by (simp add: nth_upto)
  finally show ?thesis by (simp add: row_bytes_def)
qed

lemma rows_pixel:
  assumes w: "0 \<le> width imageData" and "0 \<le> x" "x < width imageData" "0 \<le> y" "y < height imageData"
  shows "take 3 (drop (nat (height imageData - 1 - y) * (3 * nat (width imageData) + padding) + 3 * nat x)
                   (concat (map (row_bytes imageData padding) (rev [0..height imageData - 1]))))
         = pixel_bytes imageData y x"
proof -
  let ?ys = "rev [0..height imageData - 1]"
  let ?i = "nat (height imageData - 1 - y)"
  have li: "?i < length ?ys" using assms by simp
  have nth: "?ys ! ?i = y" using assms by (simp add: rev_nth nth_upto)
  have "take 3 (drop (?i * (3 * nat (width imageData) + padding) + 3 * nat x)
          (concat (map (row_bytes imageData padding) ?ys)))
        = take 3 (drop (3 * nat x) (row_bytes imageData padding (?ys ! ?i)))"
    using assms li by (intro concat_block) (simp_all add: length_row_bytes)
  then show ?thesis using assms by (simp only: nth row_bytes_pixel)
qed

lemma pixel_bytes_missing:
  "int (length (data imageData)) \<le> y * width imageData + x \<Longrightarrow> pixel_bytes imageData y x = [0, 0, 0]"
  by (simp add: pixel_bytes_def)

lemma createBMP_layout:
  assumes "0 \<le> width imageData" "0 \<le> height imageData"
    and "54 + (width imageData * 3 + (4 - (width imageData * 3) mod 4) mod 4)
           * height imageData \<le> int maxByteLength"
  shows "\<exists>hdr. length hdr = 54 \<and>
           createBMP maxByteLength imageData =
             Inr (hdr @ concat (map (row_bytes imageData (nat ((4 - (width imageData * 3) mod 4) mod 4)))
                                 (rev [0..height imageData - 1])))"
  using createBMP_layout_header [OF assms] by blast

text \<open>An image too large for the engine: the allocation throws, whatever the array holds.\<close>

lemma createBMP_allocation_refused:
  assumes w: "0 \<le> width imageData"
    and big: "int maxByteLength < 54 + (width imageData * 3 + (4 - (width imageData * 3) mod 4) mod 4)
                 * height imageData"
  shows "createBMP maxByteLength imageData = Inl RangeError"
proof -
  have padeq: "js_rem (4 - js_rem (width imageData * 3) 4) 4 = (4 - (width imageData * 3) mod 4) mod 4"
    using w by (rule paddingSize_eq)
  show ?thesis
    unfolding createBMP_def Let_def padeq using big by (simp add: new_ArrayBuffer_def)
qed

lemma le_bytes_signature: "le_bytes 2 0x424D = [0x4D, 0x42]"
proof -
  have "(word_of_int 0x424D :: byte) = 0x4D" by (simp add: word_of_int_eq_iff take_bit_eq_mod)
  moreover have "(0x424D :: int) div 256 = 0x42" by simp
  ultimately show ?thesis by (simp add: numeral_2_eq_2)
qed

lemma dv_set_prefix:
  "k \<le> byteOffset \<Longrightarrow> dv_set n buf byteOffset v = Inr buf' \<Longrightarrow> take k buf' = take k buf"
  by (auto simp: dv_set_def min_def split: if_splits)

lemma view_sets_prefix:
  "(\<And>s byteOffset v. (s, byteOffset, v) \<in> set ws \<Longrightarrow> k \<le> byteOffset) \<Longrightarrow>
     view_sets buf ws = Inr buf' \<Longrightarrow> take k buf' = take k buf"
proof (induction ws arbitrary: buf)
  case Nil
  then show ?case by simp
next
  case (Cons w ws)
  obtain s byteOffset v where w: "w = (s, byteOffset, v)" by (cases w)
  from Cons.prems(2) w obtain buf1 where 1: "dv_set (setter_size s) buf byteOffset v = Inr buf1"
    and 2: "view_sets buf1 ws = Inr buf'"
    by (auto split: sum.splits)
  have "k \<le> byteOffset" using Cons.prems(1) [of s byteOffset v] w by simp
  then have "take k buf1 = take k buf" using 1 by (rule dv_set_prefix)
  moreover have "take k buf' = take k buf1" using Cons.prems(1) 2 by (intro Cons.IH) auto
  ultimately show ?case by simp
qed

lemma bmp_header_signature:
  assumes "view_sets buf (bmp_header imageData fileSize imageSize) = Inr buf'"
  shows "take 2 buf' = [0x4D, 0x42]"
proof -
  let ?rest = "tl (bmp_header imageData fileSize imageSize)"
  from assms obtain buf1 where 1: "dv_set 2 buf 0 0x424D = Inr buf1"
    and 2: "view_sets buf1 ?rest = Inr buf'"
    by (auto simp: bmp_header_def split: sum.splits)
  have "take 2 buf' = take 2 buf1"
    using 2 by (rule view_sets_prefix [rotated]) (auto simp: bmp_header_def)
  moreover have "take 2 buf1 = [0x4D, 0x42]"
    using 1 le_bytes_signature by (auto simp: dv_set_def split: if_splits)
  ultimately show ?thesis by simp
qed

section \<open>Lemmas: the matcher and the languages of the patterns\<close>

declare run.simps(5) [simp del]

lemma star_nonempty_cases:
  "u \<in> star A \<Longrightarrow> u = [] \<or> (\<exists>u1 u2. u = u1 @ u2 \<and> u1 \<in> A \<and> u1 \<noteq> [] \<and> u2 \<in> star A)"
proof (induction rule: star.induct)
  case star_Nil
  then show ?case by simp
next
  case (star_App u v)
  show ?case
  proof (cases "u = []")
    case True
    then show ?thesis using star_App.IH by simp
  next
    case False
    then show ?thesis using star_App.hyps by blast
  qed
qed

lemma run_Star_set:
  "set (run (Star r) st) =
     (\<Union>st' \<in> set (run r st). if length (fst st') < length (fst st) then set (run (Star r) st') else {})
     \<union> {st}"
  by (subst run.simps) (simp add: if_distrib [of set] cong: if_cong)

lemma run_Star_nogrp:
  assumes ih: "\<And>s caps. set (run r (s, caps)) = reach r s caps"
  shows "set (run (Star r) (s, caps)) = reach (Star r) s caps"
proof (induction "length s" arbitrary: s rule: less_induct)
  case less
  show ?case
  proof (intro set_eqI iffI)
    fix x assume "x \<in> set (run (Star r) (s, caps))"
    then consider "x = (s, caps)"
      | s1 c1 where "(s1, c1) \<in> set (run r (s, caps))" "length s1 < length s"
          "x \<in> set (run (Star r) (s1, c1))"
      unfolding run_Star_set [of r "(s, caps)"] by (auto split: if_splits)
    then show "x \<in> reach (Star r) s caps"
    proof cases
      case 1
      then show ?thesis by (auto simp: reach_def intro: star_Nil)
    next
      case 2
      from 2(1) obtain u1 where u1: "u1 \<in> lang r" "s = u1 @ s1" "c1 = caps"
        unfolding ih reach_def by auto
      from 2(3) less [OF 2(2)] u1(3) obtain u2 s' where
        u2: "x = (s', caps)" "u2 \<in> star (lang r)" "s1 = u2 @ s'"
        unfolding reach_def by auto
      have "u1 @ u2 \<in> star (lang r)" using u1(1) u2(2) by (rule star_App)
      then show ?thesis using u1 u2 by (auto simp: reach_def)
    qed
  next
    fix x assume "x \<in> reach (Star r) s caps"
    then obtain u s' where x: "x = (s', caps)" "u \<in> star (lang r)" "s = u @ s'"
      unfolding reach_def by auto
    from star_nonempty_cases [OF x(2)] show "x \<in> set (run (Star r) (s, caps))"
    proof (elim disjE exE conjE)
      assume "u = []"
      then show ?thesis using x unfolding run_Star_set [of r "(s, caps)"] by simp
    next
      fix u1 u2 assume u: "u = u1 @ u2" "u1 \<in> lang r" "u1 \<noteq> []" "u2 \<in> star (lang r)"
      let ?s1 = "u2 @ s'"
      have 1: "(?s1, caps) \<in> set (run r (s, caps))"
        unfolding ih reach_def using u x by auto
      have 2: "length ?s1 < length s" using u x by simp
      have "x \<in> reach (Star r) ?s1 caps" using u(4) x(1) by (auto simp: reach_def)
      then have 3: "x \<in> set (run (Star r) (?s1, caps))" using less [OF 2] by simp
      show ?thesis
        unfolding run_Star_set [of r "(s, caps)"] using 1 2 3 by force
    qed
  qed
qed

lemma run_nogrp: "nogrp r \<Longrightarrow> set (run r (s, caps)) = reach r s caps"
proof (induction r arbitrary: s caps)
  case Eps
  then show ?case by (auto simp: reach_def)
next
  case (Cls cl)
  then show ?case by (cases s) (auto simp: reach_def)
next
  case (Seq r1 r2)
  then have 1: "\<And>s caps. set (run r1 (s, caps)) = reach r1 s caps"
    and 2: "\<And>s caps. set (run r2 (s, caps)) = reach r2 s caps" by simp_all
  show ?case
  proof (intro set_eqI iffI)
    fix x assume "x \<in> set (run (Seq r1 r2) (s, caps))"
    then obtain s1 c1 where "(s1, c1) \<in> set (run r1 (s, caps))" "x \<in> set (run r2 (s1, c1))"
      by auto
    then show "x \<in> reach (Seq r1 r2) s caps"
      unfolding 1 2 reach_def by fastforce
  next
    fix x assume "x \<in> reach (Seq r1 r2) s caps"
    then obtain u v s' where x: "x = (s', caps)" "u \<in> lang r1" "v \<in> lang r2" "s = (u @ v) @ s'"
      unfolding reach_def by auto
    have "(v @ s', caps) \<in> set (run r1 (s, caps))" unfolding 1 reach_def using x by auto
    moreover have "x \<in> set (run r2 (v @ s', caps))" unfolding 2 reach_def using x by auto
    ultimately show "x \<in> set (run (Seq r1 r2) (s, caps))" by auto
  qed
next
  case (Opt r)
  then show ?case by (auto simp: reach_def)
next
  case (Star r)
  then show ?case by (intro run_Star_nogrp) simp
next
  case (Grp r)
  then show ?case by simp
qed

lemma run_Seq_nogrp:
  "nogrp r1 \<Longrightarrow>
     x \<in> set (run (Seq r1 r2) (s, caps)) \<longleftrightarrow>
       (\<exists>u t. u \<in> lang r1 \<and> s = u @ t \<and> x \<in> set (run r2 (t, caps)))"
  by (auto simp: run_nogrp reach_def)

lemma run_Grp_nogrp:
  assumes "nogrp r"
  shows "set (run (Grp r) (s, caps)) = {(s', caps @ [u]) | u s'. u \<in> lang r \<and> s = u @ s'}"
proof -
  have "set (run (Grp r) (s, caps)) =
      (\<lambda>(s', caps'). (s', caps' @ [take (length s - length s') s])) ` reach r s caps"
    using run_nogrp [OF assms, of s caps] by simp
  also have "\<dots> = {(s', caps @ [u]) | u s'. u \<in> lang r \<and> s = u @ s'}"
    by (auto simp: reach_def image_iff)
  finally show ?thesis .
qed

lemma run_Seq_Grp:
  "nogrp r1 \<Longrightarrow>
     x \<in> set (run (Seq (Grp r1) r2) (s, caps)) \<longleftrightarrow>
       (\<exists>u t. u \<in> lang r1 \<and> s = u @ t \<and> x \<in> set (run r2 (t, caps @ [u])))"
proof -
  assume n: "nogrp r1"
  have "set (run (Seq (Grp r1) r2) (s, caps)) =
      (\<Union>st1 \<in> set (run (Grp r1) (s, caps)). set (run r2 st1))"
    by (subst run.simps) simp
  then show ?thesis unfolding run_Grp_nogrp [OF n] by auto
qed

lemma run_last_nogrp:
  "nogrp r \<Longrightarrow> x \<in> set (run r (s, caps)) \<longleftrightarrow> (\<exists>u s'. u \<in> lang r \<and> s = u @ s' \<and> x = (s', caps))"
  by (auto simp: run_nogrp reach_def)

lemma lang_lit [simp]: "lang (lit str) = {str}"
  by (induction str) auto

lemma nogrp_lit [simp]: "nogrp (lit str)"
  by (induction str) auto

lemma star_class: "star {[a] | a. P a} = {w. list_all P w}"
proof (intro set_eqI iffI)
  fix w assume "w \<in> star {[a] | a. P a}"
  then show "w \<in> {w. list_all P w}" by (induction rule: star.induct) auto
next
  fix w assume "w \<in> {w. list_all P w}"
  then have "list_all P w" by simp
  then show "w \<in> star {[a] | a. P a}"
  proof (induction w)
    case Nil
    show ?case by (rule star_Nil)
  next
    case (Cons a w)
    then have "[a] \<in> {[a] | a. P a}" "w \<in> star {[a] | a. P a}" by auto
    then have "[a] @ w \<in> star {[a] | a. P a}" by (rule star_App)
    then show ?case by simp
  qed
qed

lemma lang_Star_Cls [simp]: "lang (Star (Cls cl)) = {w. list_all (in_class cl) w}"
  by (simp add: star_class)

lemma lang_plus_Cls [simp]: "lang (plus (Cls cl)) = {w. w \<noteq> [] \<and> list_all (in_class cl) w}"
proof (intro set_eqI iffI)
  fix w assume "w \<in> lang (plus (Cls cl))"
  then show "w \<in> {w. w \<noteq> [] \<and> list_all (in_class cl) w}"
    by (auto simp: plus_def star_class)
next
  fix w assume "w \<in> {w. w \<noteq> [] \<and> list_all (in_class cl) w}"
  then obtain a v where "w = [a] @ v" "in_class cl a" "list_all (in_class cl) v"
    by (cases w) auto
  then show "w \<in> lang (plus (Cls cl))"
    unfolding plus_def lang.simps star_class by blast
qed

lemma nogrp_plus [simp]: "nogrp (plus r) = nogrp r"
  by (simp add: plus_def)

lemma js_match_Some:
  "js_match r s = Some x \<Longrightarrow> \<exists>k. k \<le> length s \<and> match_here r (drop k s) = Some x"
proof (induction s)
  case Nil
  then show ?case by simp
next
  case (Cons a s)
  show ?case
  proof (cases "match_here r (a # s)")
    case None
    with Cons.prems have "js_match r s = Some x" by simp
    from Cons.IH [OF this] obtain k where "k \<le> length s" "match_here r (drop k s) = Some x" by blast
    then have "Suc k \<le> length (a # s) \<and> match_here r (drop (Suc k) (a # s)) = Some x" by simp
    then show ?thesis by blast
  next
    case (Some y)
    with Cons.prems have "match_here r (drop 0 (a # s)) = Some x" by simp
    then show ?thesis by blast
  qed
qed

lemma match_here_Some_run:
  "match_here r s = Some (m, caps) \<Longrightarrow>
     \<exists>s'. (s', caps) \<in> set (run r (s, [])) \<and> m = take (length s - length s') s"
  by (auto simp: match_here_def split: list.splits)

lemma match_here_None_run: "match_here r s = None \<longleftrightarrow> run r (s, []) = []"
  by (auto simp: match_here_def split: list.splits)

lemma match_here_nogrp:
  assumes "nogrp r" "match_here r s = Some (m, caps)"
  shows "m \<in> lang r \<and> caps = [] \<and> (\<exists>s'. s = m @ s')"
proof -
  from match_here_Some_run [OF assms(2)] obtain s' where
    s': "(s', caps) \<in> set (run r (s, []))" "m = take (length s - length s') s" by blast
  from s'(1) obtain u where "u \<in> lang r" "s = u @ s'" "caps = []"
    unfolding run_nogrp [OF assms(1)] reach_def by auto
  then show ?thesis using s'(2) by auto
qed

lemma match_here_nogrp_Some:
  assumes "nogrp r" "u \<in> lang r"
  shows "\<exists>m. match_here r (u @ s') = Some (m, [])"
proof -
  have "(s', []) \<in> set (run r (u @ s', []))"
    unfolding run_nogrp [OF assms(1)] reach_def using assms(2) by auto
  then obtain x xs where x: "run r (u @ s', []) = x # xs" by (cases "run r (u @ s', [])") auto
  then have "x \<in> set (run r (u @ s', []))" by simp
  then have "snd x = []" unfolding run_nogrp [OF assms(1)] reach_def by auto
  then show ?thesis using x by (cases x) (simp add: match_here_def)
qed

lemma js_match_all_mem:
  "m \<in> set (js_match_all r s) \<Longrightarrow> \<exists>k caps. match_here r (drop k s) = Some (m, caps)"
proof (induction r s rule: js_match_all.induct)
  case (1 r s)
  show ?case
  proof (cases "match_here r s")
    case None
    then obtain a s' where s: "s = a # s'" and m: "m \<in> set (js_match_all r s')"
      using 1(4) by (subst (asm) js_match_all.simps) (auto split: list.splits)
    from 1(1) [OF None s m] obtain k caps where "match_here r (drop k s') = Some (m, caps)" by blast
    then have "match_here r (drop (Suc k) s) = Some (m, caps)" using s by simp
    then show ?thesis by blast
  next
    case (Some mc)
    obtain m0 caps0 where mc: "mc = (m0, caps0)" by (cases mc)
    show ?thesis
    proof (cases "m0 = []")
      case True
      show ?thesis
      proof (cases s)
        case Nil
        then have "m = []" using 1(4) Some mc True
          by (subst (asm) js_match_all.simps) simp
        then show ?thesis using Some mc True by (intro exI [of _ 0]) auto
      next
        case (Cons a s')
        then have "m = [] \<or> m \<in> set (js_match_all r s')" using 1(4) Some mc True
          by (subst (asm) js_match_all.simps) auto
        then show ?thesis
        proof
          assume "m = []"
          then show ?thesis using Some mc True by (intro exI [of _ 0]) auto
        next
          assume m: "m \<in> set (js_match_all r s')"
          from 1(2) [OF Some mc [symmetric] True Cons m]
          obtain k caps where "match_here r (drop k s') = Some (m, caps)" by blast
          then have "match_here r (drop (Suc k) s) = Some (m, caps)" using Cons by simp
          then show ?thesis by blast
        qed
      qed
    next
      case False
      then have "m = m0 \<or> m \<in> set (js_match_all r (drop (length m0) s))" using 1(4) Some mc
        by (subst (asm) js_match_all.simps) auto
      then show ?thesis
      proof
        assume "m = m0"
        then show ?thesis using Some mc by (intro exI [of _ 0]) auto
      next
        assume m: "m \<in> set (js_match_all r (drop (length m0) s))"
        from 1(3) [OF Some mc [symmetric] False m]
        obtain k caps where "match_here r (drop k (drop (length m0) s)) = Some (m, caps)" by blast
        then show ?thesis by (auto simp: add.commute)
      qed
    qed
  qed
qed

lemma hex_value_bounds: "in_class hexdigit c \<Longrightarrow> 0 \<le> hex_value c \<and> hex_value c \<le> 15"
  by (auto simp: hexdigit_def hex_value_def)

lemma hex_number_snoc: "hex_number (ds @ [d]) = 16 * hex_number ds + hex_value d"
  by (simp add: hex_number_def)

lemma hex_number_bounds:
  "list_all (in_class hexdigit) ds \<Longrightarrow> 0 \<le> hex_number ds \<and> hex_number ds < 16 ^ length ds"
proof (induction ds rule: rev_induct)
  case Nil
  then show ?case by (simp add: hex_number_def)
next
  case (snoc d ds)
  then have ih: "0 \<le> hex_number ds" "hex_number ds < 16 ^ length ds" by simp_all
  have d: "0 \<le> hex_value d" "hex_value d \<le> 15" using snoc.prems hex_value_bounds by simp_all
  have "hex_number ds + 1 \<le> 16 ^ length ds" using ih(2) by simp
  then have "16 * (hex_number ds + 1) \<le> 16 * 16 ^ length ds" by simp
  then show ?case using ih d by (simp add: hex_number_snoc)
qed

lemma parseInt16_prefixed:
  assumes "b = CHR ''x'' \<or> b = CHR ''X''" "hs \<noteq> []" "list_all (in_class hexdigit) hs"
  shows "parseInt16 (CHR ''0'' # b # hs) = Some (hex_number hs)"
proof -
  have sp: "\<not> is_space CHR ''0''" by (simp add: is_space_def)
  have tw: "takeWhile (in_class hexdigit) hs = hs" using assms(3) by (simp add: list_all_iff)
  show ?thesis using assms(1,2) by (auto simp: parseInt16_def sp tw)
qed

lemma lang_re_hex4:
  "u \<in> lang re_hex4 \<Longrightarrow>
     \<exists>b hs. u = CHR ''0'' # b # hs \<and> (b = CHR ''x'' \<or> b = CHR ''X'') \<and> hs \<noteq> [] \<and>
            length hs \<le> 4 \<and> list_all (in_class hexdigit) hs"
  by (auto simp: re_hex4_def)

lemma nogrp_re_hex4: "nogrp re_hex4"
  by (simp add: re_hex4_def)

lemma in_range_re_hex4_match:
  assumes "u \<in> lang re_hex4"
  shows "in_range (parseInt16 u)"
proof -
  from lang_re_hex4 [OF assms] obtain b hs where
    u: "u = CHR ''0'' # b # hs" "b = CHR ''x'' \<or> b = CHR ''X''" "hs \<noteq> []"
       "length hs \<le> 4" "list_all (in_class hexdigit) hs" by blast
  have "hex_number hs < 16 ^ length hs" "0 \<le> hex_number hs" using hex_number_bounds [OF u(5)] by simp_all
  moreover have "(16::int) ^ length hs \<le> 16 ^ 4" using u(4) by (intro power_increasing) simp_all
  ultimately have "0 \<le> hex_number hs \<and> hex_number hs \<le> 0xFFFF" by simp
  then show ?thesis using parseInt16_prefixed [OF u(2,3,5)] u(1) by (simp add: in_range_def)
qed

lemma direct_candidates_in_range:
  "list_all in_range (direct_candidates block)"
proof -
  have "in_range (parseInt16 m)" if "m \<in> set (js_match_all re_hex4 block)" for m
  proof -
    from js_match_all_mem [OF that] obtain k caps where
      "match_here re_hex4 (drop k block) = Some (m, caps)" by blast
    from match_here_nogrp [OF nogrp_re_hex4 this] have "m \<in> lang re_hex4" by simp
    then show ?thesis by (rule in_range_re_hex4_match)
  qed
  then show ?thesis by (simp add: list_all_iff direct_candidates_def)
qed

lemma fallback_candidate_in_range:
  assumes "3 \<le> length cleanVal" "length cleanVal \<le> 4" "list_all (in_class hexdigit) cleanVal"
  shows "in_range (parseInt16 (''0x'' @ cleanVal))"
proof -
  have ne: "cleanVal \<noteq> []" using assms(1) by auto
  have "parseInt16 (''0x'' @ cleanVal) = Some (hex_number cleanVal)"
    using parseInt16_prefixed [of "CHR ''x''" cleanVal] ne assms(3) by simp
  moreover have "hex_number cleanVal < 16 ^ length cleanVal" "0 \<le> hex_number cleanVal"
    using hex_number_bounds [OF assms(3)] by simp_all
  moreover have "(16::int) ^ length cleanVal \<le> 16 ^ 4" using assms(2) by (intro power_increasing) simp_all
  ultimately show ?thesis by (simp add: in_range_def)
qed

lemma fallback_candidates_in_range:
  "list_all in_range (fallback_candidates block)"
proof -
  have "in_range (parseInt16 (''0x'' @ filter (in_class hexdigit) val))"
    if "3 \<le> length (filter (in_class hexdigit) val)" "length (filter (in_class hexdigit) val) \<le> 4"
    for val
    using that by (intro fallback_candidate_in_range) (simp_all add: list_all_iff)
  then show ?thesis by (auto simp: fallback_candidates_def Let_def list_all_iff)
qed

lemma hex_values_in_range: "v \<in> set (hex_values block) \<Longrightarrow> 0 \<le> v \<and> v \<le> 0xFFFF"
  by (auto simp: hex_values_def direct_values_def fallback_values_def in_range_def Let_def
           split: if_splits option.splits)

lemma lang_re_hex4_chars: "u \<in> lang re_hex4 \<Longrightarrow> c \<in> set u \<Longrightarrow> tokchar c"
proof -
  assume u: "u \<in> lang re_hex4" and c: "c \<in> set u"
  have z: "in_class hexdigit CHR ''0''" by (simp add: hexdigit_def)
  from lang_re_hex4 [OF u] c z show ?thesis by (auto simp: tokchar_def list_all_iff)
qed

lemma js_match_all_skip:
  "pre = [] \<or> \<not> tokchar (last pre) \<Longrightarrow>
     \<exists>ms. js_match_all re_hex4 (pre @ t) = ms @ js_match_all re_hex4 t"
proof (induction "length pre" arbitrary: pre rule: less_induct)
  case less
  show ?case
  proof (cases pre)
    case Nil
    then show ?thesis by simp
  next
    case (Cons a pre')
    then have nt: "\<not> tokchar (last pre)" using less.prems by simp
    show ?thesis
    proof (cases "match_here re_hex4 (pre @ t)")
      case None
      have step: "js_match_all re_hex4 (pre @ t) = js_match_all re_hex4 (pre' @ t)"
        using None Cons by (subst js_match_all.simps) simp
      have "pre' = [] \<or> \<not> tokchar (last pre')" using nt Cons by (cases pre') auto
      from less.hyps [OF _ this] Cons step show ?thesis by simp
    next
      case (Some mc)
      obtain m caps where mc: "mc = (m, caps)" by (cases mc)
      from match_here_nogrp [OF nogrp_re_hex4 Some [unfolded mc]] obtain s' where
        m: "m \<in> lang re_hex4" "pre @ t = m @ s'" by blast
      have mne: "m \<noteq> []" using lang_re_hex4 [OF m(1)] by auto
      have le: "length m \<le> length pre"
      proof (rule ccontr)
        assume "\<not> length m \<le> length pre"
        then have lt: "length pre < length m" by simp
        have "take (length pre) (pre @ t) = take (length pre) (m @ s')" using m(2) by simp
        then have "pre = take (length pre) m" using lt by simp
        then have "set pre \<subseteq> set m" by (metis set_take_subset)
        moreover have "last pre \<in> set pre" using Cons by simp
        ultimately have "tokchar (last pre)" using lang_re_hex4_chars [OF m(1)] by blast
        then show False using nt by simp
      qed
      have step: "js_match_all re_hex4 (pre @ t) = m # js_match_all re_hex4 (drop (length m) pre @ t)"
        using Some mc mne le by (subst js_match_all.simps) simp
      let ?pre' = "drop (length m) pre"
      have shorter: "length ?pre' < length pre" using mne Cons by simp
      have "?pre' = [] \<or> \<not> tokchar (last ?pre')" using nt by auto
      from less.hyps [OF shorter this] obtain ms where
        "js_match_all re_hex4 (?pre' @ t) = ms @ js_match_all re_hex4 t" by blast
      then show ?thesis using step by simp
    qed
  qed
qed

lemma match_here_re_hex4_token:
  assumes "in_class hexdigit d1" "in_class hexdigit d2" "in_class hexdigit d3" "in_class hexdigit d4"
  shows "match_here re_hex4 (CHR ''0'' # CHR ''x'' # d1 # d2 # d3 # d4 # rest) =
           Some ([CHR ''0'', CHR ''x'', d1, d2, d3, d4], [])"
  using assms by (simp add: re_hex4_def match_here_def)

lemma js_match_all_token:
  assumes "list_all (in_class hexdigit) ds" "4 \<le> length ds"
  shows "js_match_all re_hex4 (''0x'' @ ds @ post) =
           (''0x'' @ take 4 ds) # js_match_all re_hex4 (drop 4 ds @ post)"
proof -
  obtain d1 d2 d3 d4 ds' where ds: "ds = d1 # d2 # d3 # d4 # ds'"
    using assms(2) by (cases ds; cases "tl ds"; cases "tl (tl ds)"; cases "tl (tl (tl ds))") auto
  have "match_here re_hex4 (CHR ''0'' # CHR ''x'' # d1 # d2 # d3 # d4 # ds' @ post) =
           Some ([CHR ''0'', CHR ''x'', d1, d2, d3, d4], [])"
    using assms(1) ds by (intro match_here_re_hex4_token) simp_all
  then show ?thesis unfolding ds by (subst js_match_all.simps) simp
qed

lemma has_token_start: "in_class hexdigit h \<Longrightarrow> has_token (''0x'' @ h # rest)"
  by simp

lemma has_token_Cons: "has_token s \<Longrightarrow> has_token (a # s)"
  by (cases s rule: has_token.cases) auto

lemma has_token_prepend: "has_token s \<Longrightarrow> has_token (p @ s)"
  by (induction p) (auto intro: has_token_Cons)

lemma has_token_extend: "has_token s \<Longrightarrow> has_token (s @ t)"
  by (induction s rule: has_token.induct) auto

lemma has_token_drop: "has_token (drop k s) \<Longrightarrow> has_token s"
  using has_token_prepend [of "drop k s" "take k s"] by simp

lemma nogrp_re_hex: "nogrp re_hex"
  by (simp add: re_hex_def)

lemma lang_re_hex:
  "u \<in> lang re_hex \<longleftrightarrow> (\<exists>hs. u = ''0x'' @ hs \<and> hs \<noteq> [] \<and> list_all (in_class hexdigit) hs)"
  by (auto simp: re_hex_def)

lemma lang_re_hex_token: "u \<in> lang re_hex \<Longrightarrow> has_token (u @ s')"
proof -
  assume "u \<in> lang re_hex"
  then obtain hs where hs: "u = ''0x'' @ hs" "hs \<noteq> []" "list_all (in_class hexdigit) hs"
    unfolding lang_re_hex by blast
  then obtain h hs' where "hs = h # hs'" "in_class hexdigit h" by (cases hs) auto
  then show ?thesis using hs(1) by simp
qed

lemma js_match_all_re_hex_empty: "js_match_all re_hex s = [] \<longleftrightarrow> \<not> has_token s"
proof
  assume e: "js_match_all re_hex s = []"
  show "\<not> has_token s"
  proof
    assume "has_token s"
    then have "js_match_all re_hex s \<noteq> []"
    proof (induction s rule: has_token.induct)
      case (1 a b c s)
      show ?case
      proof (cases "match_here re_hex (a # b # c # s)")
        case (Some mc)
        then show ?thesis by (subst js_match_all.simps) (auto split: prod.splits)
      next
        case None
        have "\<not> (a = CHR ''0'' \<and> b = CHR ''x'' \<and> in_class hexdigit c)"
        proof
          assume t: "a = CHR ''0'' \<and> b = CHR ''x'' \<and> in_class hexdigit c"
          have "''0x'' @ [c] \<in> lang re_hex" using t unfolding lang_re_hex by simp
          from match_here_nogrp_Some [OF nogrp_re_hex this, of s] None t show False by simp
        qed
        with 1 have "js_match_all re_hex (b # c # s) \<noteq> []" by simp
        then show ?thesis using None by (subst js_match_all.simps) simp
      qed
    qed simp_all
    with e show False by simp
  qed
next
  assume n: "\<not> has_token s"
  show "js_match_all re_hex s = []"
  proof (rule ccontr)
    assume "js_match_all re_hex s \<noteq> []"
    then obtain m where "m \<in> set (js_match_all re_hex s)" by (cases "js_match_all re_hex s") auto
    from js_match_all_mem [OF this] obtain k caps where
      "match_here re_hex (drop k s) = Some (m, caps)" by blast
    from match_here_nogrp [OF nogrp_re_hex this] obtain s' where
      "m \<in> lang re_hex" "drop k s = m @ s'" by blast
    then have "has_token (drop k s)" using lang_re_hex_token by simp
    then show False using n has_token_drop by blast
  qed
qed

lemma lang_plusE: "u \<in> lang (plus r) \<Longrightarrow> \<exists>x1 xs. u = x1 @ xs \<and> x1 \<in> lang r"
  by (auto simp: plus_def)

lemma has_token_map:
  assumes "\<And>c. f c = CHR ''0'' \<longleftrightarrow> c = CHR ''0''" "\<And>c. f c = CHR ''x'' \<longleftrightarrow> c = CHR ''x''"
    "\<And>c. in_class hexdigit (f c) \<longleftrightarrow> in_class hexdigit c"
  shows "has_token (map f s) = has_token s"
  by (induction s rule: has_token.induct) (simp_all add: assms)

lemma has_token_replace_newline:
  "has_token (replace_char (CHR 0x0A) CHR '' '' s) = has_token s"
  "has_token (replace_char (CHR 0x0D) CHR '' '' s) = has_token s"
  unfolding replace_char_def by (rule has_token_map; auto simp: hexdigit_def)+

lemma re_fallback_token:
  assumes "x \<in> set (run re_fallback (s, caps))"
  shows "has_token s \<and> (\<exists>blk. snd x = caps @ [blk])"
proof -
  define X where "X = seqs [lit ''0x'', plus (Cls hexdigit), Star (Cls (Neg [C CHR ''}'']))]"
  define G where "G = seqs [Star (Cls (Neg [C CHR ''}''])), plus X]"
  have shape: "re_fallback = Seq (lit ''{'') (Seq (Grp G) (lit ''}''))"
    by (simp add: re_fallback_def G_def X_def)
  have ng: "nogrp G" by (simp add: G_def X_def)
  have tok: "has_token u" if "u \<in> lang G" for u
  proof -
    from that obtain v0 w where "u = v0 @ w" "w \<in> lang (plus X)"
      by (auto simp: G_def)
    then obtain v0 x1 xs where u: "u = v0 @ x1 @ xs" "x1 \<in> lang X"
      using lang_plusE by blast
    from u(2) obtain hs v where "x1 = ''0x'' @ hs @ v" "hs \<noteq> []" "list_all (in_class hexdigit) hs"
      by (auto simp: X_def)
    then obtain h hs' where "x1 = ''0x'' @ h # (hs' @ v)" "in_class hexdigit h"
      by (cases hs) auto
    then have "has_token x1" by simp
    then show ?thesis unfolding u(1) by (intro has_token_prepend has_token_extend)
  qed
  have "\<exists>u t. u \<in> lang (lit ''{'') \<and> s = u @ t \<and>
          x \<in> set (run (Seq (Grp G) (lit ''}'')) (t, caps))"
    using assms unfolding shape by (rule run_Seq_nogrp [THEN iffD1, rotated]) simp
  then obtain u1 t1 where 1: "s = u1 @ t1" "x \<in> set (run (Seq (Grp G) (lit ''}'')) (t1, caps))"
    by blast
  have "\<exists>u t. u \<in> lang G \<and> t1 = u @ t \<and> x \<in> set (run (lit ''}'') (t, caps @ [u]))"
    using 1(2) by (rule run_Seq_Grp [THEN iffD1, rotated]) (rule ng)
  then obtain u2 t2 where 2: "u2 \<in> lang G" "t1 = u2 @ t2"
    "x \<in> set (run (lit ''}'') (t2, caps @ [u2]))" by blast
  have "\<exists>u s'. u \<in> lang (lit ''}'') \<and> t2 = u @ s' \<and> x = (s', caps @ [u2])"
    using 2(3) by (rule run_last_nogrp [THEN iffD1, rotated]) simp
  then have "snd x = caps @ [u2]" by auto
  moreover have "has_token s" unfolding 1(1) 2(2) using tok [OF 2(1)]
    by (intro has_token_prepend has_token_extend)
  ultimately show ?thesis by blast
qed

lemma js_match_re_fallback:
  assumes "js_match re_fallback s = Some (m, caps)"
  shows "has_token s \<and> (\<exists>blk. caps = [blk])"
proof -
  from js_match_Some [OF assms] obtain k where "match_here re_fallback (drop k s) = Some (m, caps)"
    by blast
  from match_here_Some_run [OF this] obtain s' where
    "(s', caps) \<in> set (run re_fallback (drop k s, []))" by blast
  from re_fallback_token [OF this] show ?thesis using has_token_drop by auto
qed

lemma concat_map_concat:
  "concat (map f (concat (map g xs))) = concat (map (\<lambda>x. concat (map f (g x))) xs)"
  by (induction xs) simp_all

lemma run_Seq_fun: "run (Seq r1 r2) = (\<lambda>st. concat (map (run r2) (run r1 st)))"
  by (rule ext) simp

lemma run_Seq_assoc: "run (Seq (Seq a b) c) st = run (Seq a (Seq b c)) st"
  by (simp add: concat_map_concat run_Seq_fun)

lemma run_seqs_append:
  "xs \<noteq> [] \<Longrightarrow> ys \<noteq> [] \<Longrightarrow> run (seqs (xs @ ys)) st = run (Seq (seqs xs) (seqs ys)) st"
proof (induction xs arbitrary: st)
  case Nil
  then show ?case by simp
next
  case (Cons r xs)
  show ?case
  proof (cases "xs = []")
    case True
    then show ?thesis using Cons.prems(2) by (cases ys) simp_all
  next
    case False
    then obtain x xs' where xs: "xs = x # xs'" by (cases xs) auto
    have "run (seqs ((r # xs) @ ys)) st = concat (map (run (seqs (xs @ ys))) (run r st))"
      using xs by simp
    also have "run (seqs (xs @ ys)) = run (Seq (seqs xs) (seqs ys))"
      by (rule ext) (rule Cons.IH [OF False Cons.prems(2)])
    also have "concat (map (run (Seq (seqs xs) (seqs ys))) (run r st)) =
        run (Seq r (Seq (seqs xs) (seqs ys))) st" by simp
    also have "\<dots> = run (Seq (Seq r (seqs xs)) (seqs ys)) st" by (rule run_Seq_assoc [symmetric])
    also have "Seq r (seqs xs) = seqs (r # xs)" using xs by simp
    finally show ?thesis .
  qed
qed

lemma re_array_run:
  "run re_array st = run (Seq (Opt re_const) re_array_body) st"
proof -
  let ?m = "[Star (Cls (Pos [Sp])), lit ''['', Star (Cls (Pos [Sp])),
      Opt (plus (Cls (Pos [Dg]))),
      Star (Cls (Pos [Sp])), lit '']'', Star (Cls (Pos [Sp])), lit ''='',
      Star (Cls (Pos [Sp])), lit ''{'']"
  let ?e = "[Grp (plus (Cls (Neg [C CHR ''}'']))), lit ''}'']"
  have "run (seqs (?m @ ?e)) st' = run (Seq re_array_middle (seqs ?e)) st'" for st'
    unfolding re_array_middle_def by (rule run_seqs_append) simp_all
  then have mid: "run (seqs (?m @ ?e)) = run (Seq re_array_middle (seqs ?e))" by (rule ext)
  have "run re_array st =
      run (Seq (Opt re_const)
            (Seq (lit ''uint16_t'') (Seq (plus (Cls (Pos [Sp])))
               (Seq (Grp (plus (Cls (Pos [Wd])))) (seqs (?m @ ?e)))))) st"
    unfolding re_array_def re_const_def by (simp only: seqs.simps append.simps)
  also have "\<dots> = run (Seq (Opt re_const)
            (Seq (lit ''uint16_t'') (Seq (plus (Cls (Pos [Sp])))
               (Seq (Grp (plus (Cls (Pos [Wd])))) (Seq re_array_middle (seqs ?e)))))) st"
    by (simp only: run.simps(3) run_Seq_fun mid)
  also have "\<dots> = run (Seq (Opt re_const) re_array_body) st"
    unfolding re_array_body_def by (simp only: seqs.simps)
  finally show ?thesis .
qed

lemma nogrp_re_array_middle: "nogrp re_array_middle"
  by (simp add: re_array_middle_def)

lemma star_chars:
  "u \<in> star A \<Longrightarrow> (\<And>v. v \<in> A \<Longrightarrow> list_all P v) \<Longrightarrow> list_all P u"
  by (induction rule: star.induct) simp_all

lemma lang_charset: "u \<in> lang r \<Longrightarrow> list_all (charset r) u"
proof (induction r arbitrary: u)
  case (Seq r1 r2)
  then obtain v w where "u = v @ w" "v \<in> lang r1" "w \<in> lang r2" by auto
  then have "list_all (charset r1) v" "list_all (charset r2) w" using Seq.IH by simp_all
  then show ?case using \<open>u = v @ w\<close> by (auto simp: list_all_iff)
next
  case (Star r)
  then have "u \<in> star (lang r)" by simp
  then show ?case by (rule star_chars) (use Star.IH in simp)
qed (auto simp: list_all_iff)

lemma lang_SeqI: "u \<in> lang a \<Longrightarrow> v \<in> lang b \<Longrightarrow> u @ v \<in> lang (Seq a b)"
  by auto

lemma lang_seqs_append:
  "xs \<noteq> [] \<Longrightarrow> ys \<noteq> [] \<Longrightarrow> lang (seqs (xs @ ys)) = lang (Seq (seqs xs) (seqs ys))"
proof (induction xs)
  case Nil
  then show ?case by simp
next
  case (Cons r xs)
  show ?case
  proof (cases "xs = []")
    case True
    then show ?thesis using Cons.prems(2) by (cases ys) simp_all
  next
    case False
    then obtain x xs' where xs: "xs = x # xs'" by (cases xs) auto
    have "lang (seqs ((r # xs) @ ys)) = {u @ v | u v. u \<in> lang r \<and> v \<in> lang (seqs (xs @ ys))}"
      using xs by simp
    also have "\<dots> = {u @ v | u v. u \<in> lang r \<and> v \<in> lang (Seq (seqs xs) (seqs ys))}"
      using Cons.IH [OF False Cons.prems(2)] by simp
    also have "\<dots> = lang (Seq (Seq r (seqs xs)) (seqs ys))"
      by (simp only: lang.simps) (blast intro: append_assoc [symmetric] append_assoc)
    also have "Seq r (seqs xs) = seqs (r # xs)" using xs by simp
    finally show ?thesis .
  qed
qed

lemma re_array_middle_shape:
  assumes "u \<in> lang re_array_middle"
  shows "\<exists>m. u = m @ ''{'' \<and> list_all midchar m"
proof -
  let ?front = "[Star (Cls (Pos [Sp])), lit ''['', Star (Cls (Pos [Sp])),
      Opt (plus (Cls (Pos [Dg]))),
      Star (Cls (Pos [Sp])), lit '']'', Star (Cls (Pos [Sp])), lit ''='',
      Star (Cls (Pos [Sp]))]"
  have 1: "re_array_middle = seqs (?front @ [lit ''{''])" by (simp add: re_array_middle_def)
  have 2: "lang (seqs (?front @ [lit ''{''])) = lang (Seq (seqs ?front) (seqs [lit ''{'']))"
    by (rule lang_seqs_append) simp_all
  from assms have "u \<in> lang (Seq (seqs ?front) (lit ''{''))" unfolding 1 2 by simp
  then obtain m v where "u = m @ v" "m \<in> lang (seqs ?front)" "v \<in> lang (lit ''{'')"
    unfolding lang.simps(3) by blast
  then have m: "u = m @ ''{''" "m \<in> lang (seqs ?front)" by simp_all
  from lang_charset [OF m(2)] have "list_all midchar m"
    by (auto simp: list_all_iff midchar_def plus_def)
  then show ?thesis using m(1) by blast
qed

lemma re_array_middle_mem:
  assumes "list_all is_space w2" "list_all is_space w3" "list_all is_digit d"
    "list_all is_space w4" "list_all is_space w5" "list_all is_space w6"
  shows "w2 @ ''['' @ w3 @ d @ w4 @ '']'' @ w5 @ ''='' @ w6 @ ''{'' \<in> lang re_array_middle"
proof -
  have "d = [] \<or> d \<in> lang (plus (Cls (Pos [Dg])))"
    using assms(3) unfolding lang_plus_Cls by (auto simp: list_all_iff)
  then have d: "d \<in> lang (Opt (plus (Cls (Pos [Dg]))))" by auto
  have sp: "w \<in> lang (Star (Cls (Pos [Sp])))" if "list_all is_space w" for w
    using that unfolding lang_Star_Cls by (simp add: list_all_iff)
  have l: "str \<in> lang (lit str)" for str by simp
  show ?thesis
    unfolding re_array_middle_def seqs.simps
    by (intro lang_SeqI sp assms d l)
qed

lemma re_array_body_iff:
  "x \<in> set (run re_array_body (s, caps)) \<longleftrightarrow>
     (\<exists>u2 u3 u4 u5 s'.
        s = ''uint16_t'' @ u2 @ u3 @ u4 @ u5 @ ''}'' @ s' \<and>
        u2 \<in> lang (plus (Cls (Pos [Sp]))) \<and> u3 \<in> lang (plus (Cls (Pos [Wd]))) \<and>
        u4 \<in> lang re_array_middle \<and> u5 \<in> lang (plus (Cls (Neg [C CHR ''}'']))) \<and>
        x = (s', caps @ [u3, u5]))"
proof -
  have "x \<in> set (run re_array_body (s, caps)) \<longleftrightarrow>
     (\<exists>u1 t1. u1 \<in> lang (lit ''uint16_t'') \<and> s = u1 @ t1 \<and>
      (\<exists>u2 t2. u2 \<in> lang (plus (Cls (Pos [Sp]))) \<and> t1 = u2 @ t2 \<and>
       (\<exists>u3 t3. u3 \<in> lang (plus (Cls (Pos [Wd]))) \<and> t2 = u3 @ t3 \<and>
        (\<exists>u4 t4. u4 \<in> lang re_array_middle \<and> t3 = u4 @ t4 \<and>
         (\<exists>u5 t5. u5 \<in> lang (plus (Cls (Neg [C CHR ''}'']))) \<and> t4 = u5 @ t5 \<and>
          (\<exists>u6 s'. u6 \<in> lang (lit ''}'') \<and> t5 = u6 @ s' \<and> x = (s', (caps @ [u3]) @ [u5])))))))"
    unfolding re_array_body_def seqs.simps
    by (simp only: run_Seq_nogrp run_Seq_Grp run_last_nogrp nogrp_lit nogrp_plus
          nogrp.simps nogrp_re_array_middle)
  also have "\<dots> \<longleftrightarrow>
     (\<exists>u2 u3 u4 u5 s'.
        s = ''uint16_t'' @ u2 @ u3 @ u4 @ u5 @ ''}'' @ s' \<and>
        u2 \<in> lang (plus (Cls (Pos [Sp]))) \<and> u3 \<in> lang (plus (Cls (Pos [Wd]))) \<and>
        u4 \<in> lang re_array_middle \<and> u5 \<in> lang (plus (Cls (Neg [C CHR ''}'']))) \<and>
        x = (s', caps @ [u3, u5]))"
    (is "?L \<longleftrightarrow> ?R")
  proof
    assume ?L
    then obtain u1 t1 u2 t2 u3 t3 u4 t4 u5 t5 u6 s' where
      f: "u1 \<in> lang (lit ''uint16_t'')" "s = u1 @ t1"
         "u2 \<in> lang (plus (Cls (Pos [Sp])))" "t1 = u2 @ t2"
         "u3 \<in> lang (plus (Cls (Pos [Wd])))" "t2 = u3 @ t3"
         "u4 \<in> lang re_array_middle" "t3 = u4 @ t4"
         "u5 \<in> lang (plus (Cls (Neg [C CHR ''}''])))" "t4 = u5 @ t5"
         "u6 \<in> lang (lit ''}'')" "t5 = u6 @ s'" "x = (s', (caps @ [u3]) @ [u5])"
      by blast
    have "s = ''uint16_t'' @ u2 @ u3 @ u4 @ u5 @ ''}'' @ s'" using f by simp
    moreover have "x = (s', caps @ [u3, u5])" using f by simp
    ultimately show ?R using f(3,5,7,9) by blast
  next
    assume ?R
    then obtain u2 u3 u4 u5 s' where
      f: "s = ''uint16_t'' @ u2 @ u3 @ u4 @ u5 @ ''}'' @ s'"
         "u2 \<in> lang (plus (Cls (Pos [Sp])))" "u3 \<in> lang (plus (Cls (Pos [Wd])))"
         "u4 \<in> lang re_array_middle" "u5 \<in> lang (plus (Cls (Neg [C CHR ''}''])))"
         "x = (s', caps @ [u3, u5])"
      by blast
    have 6: "\<exists>u6 s''. u6 \<in> lang (lit ''}'') \<and> ''}'' @ s' = u6 @ s'' \<and> x = (s'', (caps @ [u3]) @ [u5])"
      using f(6) by (intro exI [of _ "''}''"] exI [of _ s']) simp
    have 5: "\<exists>u5' t5. u5' \<in> lang (plus (Cls (Neg [C CHR ''}'']))) \<and> u5 @ ''}'' @ s' = u5' @ t5 \<and>
          (\<exists>u6 s''. u6 \<in> lang (lit ''}'') \<and> t5 = u6 @ s'' \<and> x = (s'', (caps @ [u3]) @ [u5']))"
      using f(5) 6 by (intro exI [of _ u5] exI [of _ "''}'' @ s'"]) simp
    show ?L
      apply (rule exI [of _ "''uint16_t''"], rule exI [of _ "u2 @ u3 @ u4 @ u5 @ ''}'' @ s'"])
      apply (intro conjI)
        apply simp
       apply (simp add: f(1))
      apply (rule exI [of _ u2], rule exI [of _ "u3 @ u4 @ u5 @ ''}'' @ s'"])
      apply (intro conjI f(2) refl)
      apply (rule exI [of _ u3], rule exI [of _ "u4 @ u5 @ ''}'' @ s'"])
      apply (intro conjI f(3) refl)
      apply (rule exI [of _ u4], rule exI [of _ "u5 @ ''}'' @ s'"])
      apply (intro conjI f(4) refl)
      apply (rule 5)
      done
  qed
  finally show ?thesis .
qed

lemma split_unique:
  assumes "u @ t = w @ t'" "list_all P u" "list_all P w"
    "t = [] \<or> \<not> P (hd t)" "t' = [] \<or> \<not> P (hd t')"
  shows "u = w \<and> t = t'"
proof -
  have tw: "takeWhile P (v @ r) = v" if "list_all P v" "r = [] \<or> \<not> P (hd r)" for v r
  proof -
    have "takeWhile P r = []" using that(2) by (cases r) auto
    then show ?thesis using that(1) by (simp add: list_all_iff takeWhile_append2)
  qed
  have "u = takeWhile P (u @ t)" using tw [OF assms(2,4)] by simp
  also have "\<dots> = takeWhile P (w @ t')" using assms(1) by simp
  also have "\<dots> = w" using tw [OF assms(3,5)] .
  finally have "u = w" .
  then show ?thesis using assms(1) by simp
qed

lemma word_not_space: "is_word c \<Longrightarrow> \<not> is_space c"
  by (auto simp: is_word_def is_space_def)

lemma re_array_middle_head:
  assumes "u \<in> lang re_array_middle"
  shows "\<not> is_word (hd (u @ t))"
proof -
  from assms obtain w v where "u = w @ ''['' @ v" "list_all is_space w"
    unfolding re_array_middle_def seqs.simps lang.simps(3) lang_lit lang_Star_Cls
    by (auto simp: list_all_iff)
  then show ?thesis using word_not_space by (cases w) (auto simp: is_word_def)
qed

lemma brace_classes:
  "\<not> midchar CHR ''{''" "\<not> is_word CHR ''{''" "\<not> is_word CHR ''[''" "midchar CHR ''[''"
  by (simp_all add: midchar_def is_word_def is_space_def is_digit_def)

lemma re_array_body_prefix:
  "x \<in> set (run re_array_body (s, caps)) \<Longrightarrow> take 8 s = ''uint16_t''"
  unfolding re_array_body_iff by auto

lemma re_array_body_at_declaration:
  assumes s: "s = ''uint16_t'' @ ws1 @ foo @ ws2 @ ''['' @ ws3 @ ds @ ws4 @ '']'' @ ws5 @ ''=''
                  @ ws6 @ ''{'' @ blk @ ''}'' @ post"
    and ws1: "ws1 \<noteq> []" "list_all is_space ws1"
    and foo: "foo \<noteq> []" "list_all is_word foo"
    and ws: "list_all is_space ws2" "list_all is_space ws3" "list_all is_digit ds"
            "list_all is_space ws4" "list_all is_space ws5" "list_all is_space ws6"
    and blk: "blk \<noteq> []" "CHR ''}'' \<notin> set blk"
  shows "run re_array_body (s, caps) \<noteq> []"
    and "x \<in> set (run re_array_body (s, caps)) \<Longrightarrow> snd x = caps @ [foo, blk]"
proof -
  let ?mid = "ws2 @ ''['' @ ws3 @ ds @ ws4 @ '']'' @ ws5 @ ''='' @ ws6"
  have mid_mem: "?mid @ ''{'' \<in> lang re_array_middle"
    using re_array_middle_mem [OF ws] by simp
  have mid_chars: "list_all midchar ?mid"
    using ws by (auto simp: list_all_iff midchar_def)
  have l1: "ws1 \<in> lang (plus (Cls (Pos [Sp])))" using ws1 by (simp add: list_all_iff)
  have l2: "foo \<in> lang (plus (Cls (Pos [Wd])))" using foo by (simp add: list_all_iff)
  have l3: "blk \<in> lang (plus (Cls (Neg [C CHR ''}''])))" using blk by (auto simp: list_all_iff)
  have s': "s = ''uint16_t'' @ ws1 @ foo @ (?mid @ ''{'') @ blk @ ''}'' @ post"
    using s by simp
  have "(post, caps @ [foo, blk]) \<in> set (run re_array_body (s, caps))"
    unfolding re_array_body_iff using s' l1 l2 l3 mid_mem by blast
  then show "run re_array_body (s, caps) \<noteq> []" by auto
  assume "x \<in> set (run re_array_body (s, caps))"
  then obtain u2 u3 u4 u5 r where
    e: "s = ''uint16_t'' @ u2 @ u3 @ u4 @ u5 @ ''}'' @ r"
       "u2 \<in> lang (plus (Cls (Pos [Sp])))" "u3 \<in> lang (plus (Cls (Pos [Wd])))"
       "u4 \<in> lang re_array_middle" "u5 \<in> lang (plus (Cls (Neg [C CHR ''}''])))"
       "x = (r, caps @ [u3, u5])"
    unfolding re_array_body_iff by blast
  from re_array_middle_shape [OF e(4)] obtain m where m: "u4 = m @ ''{''" "list_all midchar m"
    by blast
  have u2: "u2 \<noteq> []" "list_all is_space u2" using e(2) by (simp_all add: list_all_iff)
  have u3: "u3 \<noteq> []" "list_all is_word u3" using e(3) by (simp_all add: list_all_iff)
  have u5: "u5 \<noteq> []" "list_all (\<lambda>c. c \<noteq> CHR ''}'') u5" using e(5) by (simp_all add: list_all_iff)
  have b5: "list_all (\<lambda>c. c \<noteq> CHR ''}'') blk" using blk(2) by (auto simp: list_all_iff)
  have hd_foo: "\<not> is_space (hd (foo @ t))" for t
    using foo word_not_space by (cases foo) auto
  have hd_u3: "\<not> is_space (hd (u3 @ t))" for t
    using u3 word_not_space by (cases u3) auto
  have hd_mid: "\<not> is_word (hd (?mid @ ''{'' @ t))" for t
    using re_array_middle_head [OF mid_mem, of t] by simp
  have hd_m: "\<not> is_word (hd (m @ ''{'' @ t))" for t
    using re_array_middle_head [OF e(4), of t] m(1) by simp
  have eq0: "ws1 @ (foo @ ?mid @ ''{'' @ blk @ ''}'' @ post) = u2 @ (u3 @ m @ ''{'' @ u5 @ ''}'' @ r)"
    using s e(1) m(1) by simp
  from split_unique [OF eq0 ws1(2) u2(2)] hd_foo hd_u3
  have 1: "ws1 = u2" "foo @ ?mid @ ''{'' @ blk @ ''}'' @ post = u3 @ m @ ''{'' @ u5 @ ''}'' @ r"
    by auto
  have eq1: "foo @ (?mid @ ''{'' @ blk @ ''}'' @ post) = u3 @ (m @ ''{'' @ u5 @ ''}'' @ r)"
    using 1(2) by simp
  from split_unique [OF eq1 foo(2) u3(2)] hd_mid hd_m
  have 2: "foo = u3" "?mid @ ''{'' @ blk @ ''}'' @ post = m @ ''{'' @ u5 @ ''}'' @ r"
    by auto
  have eq2: "?mid @ (''{'' @ blk @ ''}'' @ post) = m @ (''{'' @ u5 @ ''}'' @ r)"
    using 2(2) by simp
  from split_unique [OF eq2 mid_chars m(2)] brace_classes(1)
  have 3: "blk @ ''}'' @ post = u5 @ ''}'' @ r" by auto
  have eq3: "blk @ (''}'' @ post) = u5 @ (''}'' @ r)" using 3 by simp
  from split_unique [OF eq3 b5 u5(2)] have 4: "blk = u5" by auto
  show "snd x = caps @ [foo, blk]" using e(6) 2(1) 4 by simp
qed

lemma re_array_cases:
  assumes "x \<in> set (run re_array (s, caps))"
  shows "x \<in> set (run re_array_body (s, caps)) \<or>
         (\<exists>w t. w \<noteq> [] \<and> list_all is_space w \<and> s = ''const'' @ w @ t \<and>
                x \<in> set (run re_array_body (t, caps)))"
proof -
  have nc: "nogrp re_const" by (simp add: re_const_def)
  from assms have "x \<in> set (run (Seq (Opt re_const) re_array_body) (s, caps))"
    by (simp only: re_array_run)
  then obtain st1 where st1: "st1 \<in> set (run re_const (s, caps)) \<or> st1 = (s, caps)"
    "x \<in> set (run re_array_body st1)" by auto
  show ?thesis
  proof (cases "st1 = (s, caps)")
    case True
    then show ?thesis using st1(2) by simp
  next
    case False
    then have "st1 \<in> reach re_const s caps" using st1(1) run_nogrp [OF nc] by simp
    then obtain u t where u: "st1 = (t, caps)" "u \<in> lang re_const" "s = u @ t"
      by (auto simp: reach_def)
    from u(2) obtain w where "u = ''const'' @ w" "w \<noteq> []" "list_all is_space w"
      unfolding re_const_def seqs.simps lang.simps(3) lang_lit lang_plus_Cls
      by (auto simp: list_all_iff)
    then show ?thesis using u st1(2) by auto
  qed
qed

lemma re_array_body_subset:
  "x \<in> set (run re_array_body (s, caps)) \<Longrightarrow> x \<in> set (run re_array (s, caps))"
  by (simp only: re_array_run) simp

lemma js_match_first:
  assumes "n \<le> length s" "match_here r (drop n s) \<noteq> None"
    and "\<And>i m c. i \<le> n \<Longrightarrow> match_here r (drop i s) = Some (m, c) \<Longrightarrow> c = c0"
  shows "\<exists>m. js_match r s = Some (m, c0)"
  using assms
proof (induction s arbitrary: n)
  case Nil
  then obtain m c where "match_here r [] = Some (m, c)" by auto
  moreover from this Nil.prems(3) [of 0 m c] have "c = c0" by simp
  ultimately show ?case by simp
next
  case (Cons a s)
  show ?case
  proof (cases "match_here r (a # s)")
    case (Some mc)
    obtain m c where mc: "mc = (m, c)" by (cases mc)
    from Cons.prems(3) [of 0 m c] Some mc have "c = c0" by simp
    then show ?thesis using Some mc by simp
  next
    case None
    then obtain n' where n: "n = Suc n'" using Cons.prems(2) by (cases n) auto
    have "\<exists>m. js_match r s = Some (m, c0)"
    proof (rule Cons.IH [of n'])
      show "n' \<le> length s" using Cons.prems(1) n by simp
      show "match_here r (drop n' s) \<noteq> None" using Cons.prems(2) n by simp
      show "c = c0" if "i \<le> n'" "match_here r (drop i s) = Some (m, c)" for i m c
        using Cons.prems(3) [of "Suc i" m c] that n by simp
    qed
    then show ?thesis using None by simp
  qed
qed

lemma re_array_captures:
  assumes "js_match re_array s = Some (m, caps)"
  shows "\<exists>nm blk. caps = [nm, blk]"
proof -
  from js_match_Some [OF assms] obtain k where "match_here re_array (drop k s) = Some (m, caps)"
    by blast
  from match_here_Some_run [OF this] obtain s' where
    x: "(s', caps) \<in> set (run re_array (drop k s, []))" by blast
  from re_array_cases [OF x] obtain t where "(s', caps) \<in> set (run re_array_body (t, []))"
    by blast
  then show ?thesis unfolding re_array_body_iff by auto
qed

lemma extract_block_tier1:
  "js_match re_array s = Some (m, caps) \<Longrightarrow> \<exists>nm blk. extract_block s = Inr (nm, blk)"
  using re_array_captures [of s m caps] by (auto simp: extract_block_def)

lemma extract_block_error:
  "extract_block s = Inl e \<longleftrightarrow>
     e = NoHexValuesFound \<and> js_match re_array s = None \<and> \<not> has_token s"
proof (cases "js_match re_array s")
  case (Some mc)
  obtain m caps where "mc = (m, caps)" by (cases mc)
  with Some extract_block_tier1 [of s m caps] show ?thesis by auto
next
  case None
  let ?single = "replace_char (CHR 0x0D) CHR '' '' (replace_char (CHR 0x0A) CHR '' '' s)"
  have single: "has_token ?single = has_token s" by (simp add: has_token_replace_newline)
  show ?thesis
  proof (cases "js_match re_fallback ?single")
    case (Some mc)
    obtain m caps where mc: "mc = (m, caps)" by (cases mc)
    from js_match_re_fallback [OF Some [unfolded mc]] obtain blk where
      "has_token ?single" "caps = [blk]" by blast
    then show ?thesis using None Some mc single by (simp add: extract_block_def)
  next
    case fb: None
    show ?thesis
    proof (cases "js_match_all re_hex s = []")
      case True
      then have "\<not> has_token s" by (simp add: js_match_all_re_hex_empty)
      then show ?thesis using None fb True by (auto simp: extract_block_def)
    next
      case False
      then have "has_token s" by (simp add: js_match_all_re_hex_empty)
      then show ?thesis using None fb False by (auto simp: extract_block_def)
    qed
  qed
qed

lemma eval_no_prefix: "extract_block ''uint16_t a[] = {1234}'' = Inr (''a'', ''1234'')"
  by (simp add: extract_block_def re_array_def plus_def match_here_def is_space_def is_word_def
      is_digit_def run.simps)

lemma eval_values: "hex_values ''1234'' = [0x1234]"
  by (simp add: hex_values_def direct_values_def fallback_values_def direct_candidates_def
      fallback_candidates_def js_match_all.simps
      re_hex4_def hexdigit_def match_here_def js_split_def split_loop.simps re_separator_def
      plus_def is_space_def trim_def parseInt16_def hex_number_def hex_value_def in_range_def
      run.simps Let_def)

lemma eval_short: "extract_block ''uint16_t a[] = {1}; 0x5'' = Inr (''a'', ''1'')"
  by (simp add: extract_block_def re_array_def plus_def match_here_def is_space_def is_word_def
      is_digit_def run.simps)

lemma eval_short_values: "direct_values ''1'' = [] \<and> fallback_values ''1'' = []"
  by (simp add: direct_values_def fallback_values_def direct_candidates_def
      fallback_candidates_def js_match_all.simps
      re_hex4_def hexdigit_def match_here_def js_split_def split_loop.simps re_separator_def
      plus_def is_space_def trim_def run.simps Let_def)

section \<open>Claims about the colour conversion\<close>

text \<open>
  C1 (as amended). For every 16-bit input the three components returned by
  \<^verbatim>\<open>rgb565ToRgb\<close> lie in \<open>[0, 255]\<close>. On the canonical inputs the code replicates the
  high bits of each channel, so a saturated channel becomes 255: 0xF800 gives (255, 0, 0),
  0x07E0 gives (0, 255, 0), 0x001F gives (0, 0, 255), 0xFFFF gives (255, 255, 255) and
  0x0000 gives (0, 0, 0).
\<close>

theorem rgb565ToRgb_range_and_canonical:
  "(case rgb565ToRgb (uint (c :: 16 word)) of
      (r, g, b) \<Rightarrow> 0 \<le> r \<and> r \<le> 255 \<and> 0 \<le> g \<and> g \<le> 255 \<and> 0 \<le> b \<and> b \<le> 255)
   \<and> rgb565ToRgb 0xF800 = (255, 0, 0)
   \<and> rgb565ToRgb 0x07E0 = (0, 255, 0)
   \<and> rgb565ToRgb 0x001F = (0, 0, 255)
   \<and> rgb565ToRgb 0xFFFF = (255, 255, 255)
   \<and> rgb565ToRgb 0x0000 = (0, 0, 0)"
proof -
  have x: "0 \<le> uint c" "uint c < 2 ^ 16" using uint_lt2p [of c] by simp_all
  have b5: "\<And>k::int. 0 \<le> take_bit 5 k \<and> take_bit 5 k < 32"
    using take_bit_int_less_exp [of 5] by simp
  have b6: "\<And>k::int. 0 \<le> take_bit 6 k \<and> take_bit 6 k < 64"
    using take_bit_int_less_exp [of 6] by simp
  have range: "case rgb565ToRgb (uint c) of
      (r, g, b) \<Rightarrow> 0 \<le> r \<and> r \<le> 255 \<and> 0 \<le> g \<and> g \<le> 255 \<and> 0 \<le> b \<and> b \<le> 255"
    using expand5_bounds b5 b6 expand6_bounds by (simp add: rgb565ToRgb_small [OF x])
  have canonical: "rgb565ToRgb 0xF800 = (255, 0, 0)" "rgb565ToRgb 0x07E0 = (0, 255, 0)"
    "rgb565ToRgb 0x001F = (0, 0, 255)" "rgb565ToRgb 0xFFFF = (255, 255, 255)"
    "rgb565ToRgb 0x0000 = (0, 0, 0)"
    by (simp_all add: rgb565ToRgb_def js_and_def js_or_def js_shl_def js_shr_def ToInt32_def)
  show ?thesis using range canonical by simp
qed

text \<open>
  The values the claim lists for the three primaries are those of zero-padding, which the code
  does not produce.
\<close>

theorem rgb565ToRgb_primaries_counterexample:
  "rgb565ToRgb 0xF800 \<noteq> (248, 0, 0) \<and> rgb565ToRgb 0x07E0 \<noteq> (0, 252, 0)
   \<and> rgb565ToRgb 0x001F \<noteq> (0, 0, 248)"
  by (simp add: rgb565ToRgb_def js_and_def js_or_def js_shl_def js_shr_def ToInt32_def)

text \<open>
  C2. For every 16-bit input \<open>c\<close>, \<^verbatim>\<open>rgb565ToRgb\<close> takes \<open>r5\<close> from bits 15 to 11,
  \<open>g6\<close> from bits 10 to 5 and \<open>b5\<close> from bits 4 to 0, and returns
  \<open>(r5 << 3) | (r5 >> 2)\<close>, \<open>(g6 << 2) | (g6 >> 4)\<close> and \<open>(b5 << 3) | (b5 >> 2)\<close>: the high
  bits of a channel are repeated in the low bits of its byte. The right-hand side is stated on
  unbounded integers, so the 32-bit conversions of the operators lose nothing.
\<close>

theorem rgb565ToRgb_bit_replication:
  "rgb565ToRgb (uint (c :: 16 word)) =
     (let r5 = take_bit 5 (drop_bit 11 (uint c));
          g6 = take_bit 6 (drop_bit 5 (uint c));
          b5 = take_bit 5 (uint c)
      in (push_bit 3 r5 OR drop_bit 2 r5,
          push_bit 2 g6 OR drop_bit 4 g6,
          push_bit 3 b5 OR drop_bit 2 b5))"
proof -
  have "0 \<le> uint c" "uint c < 2 ^ 16" using uint_lt2p [of c] by simp_all
  then show ?thesis by (simp add: rgb565ToRgb_small expand5_def expand6_def Let_def)
qed

section \<open>Claims about the dimension inference\<close>

text \<open>
  C5 (as amended). The resolution table is preferred over the generic shapes. Every matching
  entry is put in front of the candidates collected so far, so whenever the pixel count is the
  product of a table entry, the result is the entry listed last among the entries with that
  product (a table entry, then). 20480 pixels give (160, 128), the later of the two
  orientations. 64 pixels match no entry and give the square (8, 8).
\<close>

theorem resolveDimensions_prefers_table:
  assumes "(w, h) \<in> set commonResolutions"
  shows "resolveDimensions (w * h)
           = last (filter (\<lambda>res. fst res * snd res = w * h) commonResolutions)
         \<and> resolveDimensions (w * h) \<in> set commonResolutions
         \<and> resolveDimensions 20480 = (160, 128)
         \<and> resolveDimensions 64 = (8, 8)"
proof -
  have cases: "(w, h) \<in> {(128, 128), (64, 64), (32, 32), (16, 16), (320, 240), (240, 320),
      (128, 160), (160, 128), (128, 64), (64, 128), (96, 64), (64, 96)}"
    using assms by (simp add: commonResolutions_def)
  have lastm: "resolveDimensions (w * h)
           = last (filter (\<lambda>res. fst res * snd res = w * h) commonResolutions)"
    using cases by (auto simp: resolveDimensions_table_values) (simp_all add: commonResolutions_def)
  have "filter (\<lambda>res. fst res * snd res = w * h) commonResolutions \<noteq> []"
    using assms by (force simp: filter_empty_conv)
  then have "last (filter (\<lambda>res. fst res * snd res = w * h) commonResolutions)
      \<in> set (filter (\<lambda>res. fst res * snd res = w * h) commonResolutions)"
    by (rule last_in_set)
  then have table: "resolveDimensions (w * h) \<in> set commonResolutions"
    using lastm by simp
  have "resolveDimensions 20480 = (160, 128)"
    by (rule resolveDimensions_table_values)
  moreover have "resolveDimensions 64 = (8, 8)"
    by (simp add: resolveDimensions_def possibleDimensions_def commonResolutions_def
        floor_sqrt.simps)
  ultimately show ?thesis using lastm table by simp
qed

theorem resolveDimensions_prefers_table_witness:
  "(96, 64) \<in> set commonResolutions
   \<and> filter (\<lambda>res. fst res * snd res = 96 * 64) commonResolutions = [(96, 64), (64, 96)]
   \<and> resolveDimensions (96 * 64) = (64, 96)
   \<and> resolveDimensions 20480 = (160, 128)
   \<and> resolveDimensions 64 = (8, 8)"
proof -
  have m: "(96, 64) \<in> set commonResolutions" by (simp add: commonResolutions_def)
  have f: "filter (\<lambda>res. fst res * snd res = 96 * 64) commonResolutions = [(96, 64), (64, 96)]"
    by (simp add: commonResolutions_def)
  show ?thesis using m f resolveDimensions_prefers_table [OF m] by simp
qed

text \<open>For 20480 pixels the claim names the other orientation.\<close>

theorem resolveDimensions_20480_counterexample:
  "resolveDimensions 20480 \<noteq> (128, 160)"
  by (simp add: resolveDimensions_def possibleDimensions_def commonResolutions_def)

text \<open>
  C6. For every pixel count \<open>N \<ge> 1\<close> the result has width and height at least 1 and their
  product is exactly \<open>N\<close>; it is the floor of a candidate that matches, or the forced single
  row \<open>(N, 1)\<close>.
\<close>

theorem resolveDimensions_exact_product:
  assumes "1 \<le> N"
  shows "case resolveDimensions N of
           (w, h) \<Rightarrow> 1 \<le> w \<and> 1 \<le> h \<and> w * h = N \<and>
             ((\<exists>dim \<in> set (possibleDimensions N).
                  js_floor (fst dim) = Some w \<and> js_floor (snd dim) = Some h)
              \<or> (w, h) = (N, 1))"
proof -
  obtain w h where r: "resolveDimensions N = (w, h)" by (cases "resolveDimensions N")
  have prod: "w * h = N"
    using r by (auto simp: resolveDimensions_def Let_def split: option.splits if_splits)
  then have pos: "1 \<le> w" "1 \<le> h" using assms by (cases w; cases h; simp)+
  have single: "(Num N, Num 1) \<in> set (possibleDimensions N)"
    by (rule possibleDimensions_in)
  let ?P = "\<lambda>dim. js_mul (js_floor (fst dim)) (js_floor (snd dim)) = Some N"
  have "?P (Num N, Num 1)" by simp
  with single have "\<exists>dim. dim \<in> set (possibleDimensions N) \<and> ?P dim" by blast
  then have "find ?P (possibleDimensions N) \<noteq> None"
    by (simp only: find_None_iff not_not)
  then obtain dim where f: "find ?P (possibleDimensions N) = Some dim" by blast
  then have "dim \<in> set (possibleDimensions N)" "?P dim"
    by (auto simp: find_Some_iff)
  moreover have "js_floor (fst dim) = Some w \<and> js_floor (snd dim) = Some h \<or> (w, h) = (N, 1)"
    using r f by (auto simp: resolveDimensions_def Let_def split: option.splits if_splits)
  ultimately show ?thesis using r prod pos by auto
qed

theorem resolveDimensions_exact_product_witness:
  "(1::nat) \<le> 12 \<and> resolveDimensions 12 = (12, 1) \<and>
   (case resolveDimensions 12 of (w, h) \<Rightarrow> 1 \<le> w \<and> 1 \<le> h \<and> w * h = 12)"
proof -
  have n: "(1::nat) \<le> 12" by simp
  have v: "resolveDimensions 12 = (12, 1)"
    by (simp add: resolveDimensions_def possibleDimensions_def commonResolutions_def
        floor_sqrt.simps)
  show ?thesis using n v resolveDimensions_exact_product [OF n] by auto
qed

section \<open>Claims about the BMP encoder\<close>

text \<open>
  C3. The claim asks for the signature bytes 0x42 0x4D (\<open>BM\<close>) at offsets 0 and 1. The code
  writes the value 0x424D as a little-endian 16-bit field, so for every image of width and
  height at least 1 whose file the engine allocates, the file begins with 0x4D at offset 0 and
  0x42 at offset 1 (\<open>MB\<close>).
\<close>

theorem createBMP_signature_bytes:
  assumes "1 \<le> width imageData" "1 \<le> height imageData"
    and "54 + (width imageData * 3 + (4 - (width imageData * 3) mod 4) mod 4)
           * height imageData \<le> int maxByteLength"
  shows "\<exists>bs. createBMP maxByteLength imageData = Inr bs \<and> bs ! 0 = 0x4D \<and> bs ! 1 = 0x42"
proof -
  obtain hdr buf n fileSize imageSize where
    v: "view_sets (replicate n 0) (bmp_header imageData fileSize imageSize) = Inr buf"
    and h: "hdr = take 54 buf" "length hdr = 54"
    and c: "createBMP maxByteLength imageData =
      Inr (hdr @ concat (map (row_bytes imageData (nat ((4 - (width imageData * 3) mod 4) mod 4)))
                          (rev [0..height imageData - 1])))"
    using createBMP_layout_header [of imageData maxByteLength] assms by auto
  let ?bs = "hdr @ concat (map (row_bytes imageData (nat ((4 - (width imageData * 3) mod 4) mod 4)))
                          (rev [0..height imageData - 1]))"
  have "take 2 ?bs = take 2 hdr" using h(2) by simp
  also have "\<dots> = take 2 buf" using h(1) by simp
  also have "\<dots> = [0x4D, 0x42]" using v by (rule bmp_header_signature)
  finally have t: "take 2 ?bs = [0x4D, 0x42]" .
  have "?bs ! 0 = take 2 ?bs ! 0" "?bs ! 1 = take 2 ?bs ! 1" by (simp_all only: nth_take)
  then have "?bs ! 0 = 0x4D \<and> ?bs ! 1 = 0x42" unfolding t by simp
  then show ?thesis using c by blast
qed

theorem createBMP_signature_bytes_witness:
  "1 \<le> width \<lparr>width = 1, height = 1, data = [0xF800], name = ''img''\<rparr> \<and>
   1 \<le> height \<lparr>width = 1, height = 1, data = [0xF800], name = ''img''\<rparr> \<and>
   54 + (1 * 3 + (4 - (1 * 3) mod 4) mod 4) * 1 \<le> int 2147483647 \<and>
   (\<exists>bs. createBMP 2147483647 \<lparr>width = 1, height = 1, data = [0xF800], name = ''img''\<rparr> = Inr bs \<and>
      bs ! 0 = 0x4D \<and> bs ! 1 = 0x42)"
  using createBMP_signature_bytes [of "\<lparr>width = 1, height = 1, data = [0xF800], name = ''img''\<rparr>"
      2147483647]
  by simp

text \<open>
  C4. For every image of width and height at least 1 whose file the engine allocates, the
  encoder returns a byte sequence of length \<open>54 + (width * 3 + padding) * height\<close> with
  \<open>padding = (4 - (width * 3) mod 4) mod 4\<close>, and what follows the first 54 bytes is the rows
  from \<open>y = height - 1\<close> down to \<open>y = 0\<close>, each row its pixels from \<open>x = 0\<close> to
  \<open>x = width - 1\<close> as blue, green, red (\<open>pixel_bytes\<close>) followed by \<open>padding\<close> zero bytes.
\<close>

theorem createBMP_pixel_rows:
  assumes "1 \<le> width imageData" "1 \<le> height imageData"
    and "54 + (width imageData * 3 + (4 - (width imageData * 3) mod 4) mod 4)
           * height imageData \<le> int maxByteLength"
  shows "let padding = (4 - (width imageData * 3) mod 4) mod 4 in
         \<exists>bs. createBMP maxByteLength imageData = Inr bs \<and>
           int (length bs) = 54 + (width imageData * 3 + padding) * height imageData \<and>
           drop 54 bs =
             concat (map (\<lambda>y. concat (map (\<lambda>x. pixel_bytes imageData y x) [0..width imageData - 1])
                                @ replicate (nat padding) 0)
                         (rev [0..height imageData - 1]))"
proof -
  define pad where "pad = (4 - (width imageData * 3) mod 4) mod 4"
  have pad0: "0 \<le> pad" by (simp add: pad_def)
  obtain hdr where hdr: "length hdr = 54"
    "createBMP maxByteLength imageData =
       Inr (hdr @ concat (map (row_bytes imageData (nat pad)) (rev [0..height imageData - 1])))"
    using createBMP_layout [of imageData maxByteLength] assms unfolding pad_def by auto
  let ?rows = "concat (map (row_bytes imageData (nat pad)) (rev [0..height imageData - 1]))"
  have "length ?rows = (3 * nat (width imageData) + nat pad) * nat (height imageData)"
    using assms by (simp add: length_concat_rows)
  also have "int \<dots> = (width imageData * 3 + pad) * height imageData"
    using assms pad0 by simp
  finally have len: "int (length (hdr @ ?rows)) = 54 + (width imageData * 3 + pad) * height imageData"
    using hdr(1) by simp
  have "row_bytes imageData (nat pad) =
      (\<lambda>y. concat (map (\<lambda>x. pixel_bytes imageData y x) [0..width imageData - 1]) @ replicate (nat pad) 0)"
    by (rule ext) (simp add: row_bytes_def)
  then have "drop 54 (hdr @ ?rows) =
      concat (map (\<lambda>y. concat (map (\<lambda>x. pixel_bytes imageData y x) [0..width imageData - 1])
                                @ replicate (nat pad) 0) (rev [0..height imageData - 1]))"
    using hdr(1) by simp
  then show ?thesis using hdr(2) len unfolding Let_def pad_def [symmetric] by blast
qed

theorem createBMP_pixel_rows_witness:
  "1 \<le> width \<lparr>width = 2, height = 1, data = [0xF800, 0], name = ''img''\<rparr> \<and>
   1 \<le> height \<lparr>width = 2, height = 1, data = [0xF800, 0], name = ''img''\<rparr> \<and>
   54 + (2 * 3 + (4 - (2 * 3) mod 4) mod 4) * 1 \<le> int 2147483647 \<and>
   (\<exists>bs. createBMP 2147483647 \<lparr>width = 2, height = 1, data = [0xF800, 0], name = ''img''\<rparr> = Inr bs \<and>
      length bs = 62 \<and> drop 54 bs = [0, 0, 255, 0, 0, 0, 0, 0])"
proof -
  let ?img = "\<lparr>width = 2, height = 1, data = [0xF800, 0], name = ''img''\<rparr>"
  have px: "pixel_bytes ?img 0 0 = [0, 0, 255]" "pixel_bytes ?img 0 1 = [0, 0, 0]"
    by (simp_all add: pixel_bytes_def data_at_def rgb565ToRgb_def js_and_def js_or_def js_shl_def
        js_shr_def ToInt32_def)
  have up: "[0..1::int] = [0, 1]" by (simp add: upto_rec1)
  have rp: "replicate 2 (0::byte) = [0, 0]" by (simp add: numeral_2_eq_2)
  show ?thesis
    using createBMP_pixel_rows [of ?img 2147483647] by (simp add: px up rp Let_def)
qed

text \<open>
  C9. For every image of width and height at least 1 whose array is shorter than
  \<open>width * height\<close> and whose file the engine allocates (the file has
  \<open>54 + rowSize * height\<close> bytes, whatever the length of the array), the encoder returns a
  byte sequence: the missing values make it raise nothing. The three
  bytes of every pixel whose index \<open>y * width + x\<close> is not below the length of the array are
  zero. The pixel in column \<open>x\<close> of row \<open>y\<close> stands at offset
  \<open>54 + (height - 1 - y) * rowSize + 3 * x\<close>. (A file that the engine does not allocate
  makes \<^verbatim>\<open>new ArrayBuffer\<close> throw, with a full array as with a short one.)
\<close>

theorem createBMP_missing_pixels_black:
  assumes "1 \<le> width imageData" "1 \<le> height imageData"
    and "int (length (data imageData)) < width imageData * height imageData"
    and "54 + (width imageData * 3 + (4 - (width imageData * 3) mod 4) mod 4)
           * height imageData \<le> int maxByteLength"
  shows "\<exists>bs. createBMP maxByteLength imageData = Inr bs \<and>
           (\<forall>x y. 0 \<le> x \<and> x < width imageData \<and> 0 \<le> y \<and> y < height imageData \<and>
                  int (length (data imageData)) \<le> y * width imageData + x \<longrightarrow>
              take 3 (drop (54 + nat (height imageData - 1 - y) *
                                   nat (width imageData * 3 + (4 - (width imageData * 3) mod 4) mod 4)
                               + 3 * nat x) bs) = [0, 0, 0])"
proof -
  define pad where "pad = (4 - (width imageData * 3) mod 4) mod 4"
  have pad0: "0 \<le> pad" by (simp add: pad_def)
  obtain hdr where hdr: "length hdr = 54"
    "createBMP maxByteLength imageData =
       Inr (hdr @ concat (map (row_bytes imageData (nat pad)) (rev [0..height imageData - 1])))"
    using createBMP_layout [of imageData maxByteLength] assms unfolding pad_def by auto
  let ?rows = "concat (map (row_bytes imageData (nat pad)) (rev [0..height imageData - 1]))"
  have K: "nat (width imageData * 3 + pad) = 3 * nat (width imageData) + nat pad"
    using assms pad0 by linarith
  have "take 3 (drop (54 + nat (height imageData - 1 - y) * nat (width imageData * 3 + pad) + 3 * nat x)
            (hdr @ ?rows)) = [0, 0, 0]"
    if "0 \<le> x" "x < width imageData" "0 \<le> y" "y < height imageData"
       "int (length (data imageData)) \<le> y * width imageData + x" for x y
  proof -
    have "drop (54 + nat (height imageData - 1 - y) * nat (width imageData * 3 + pad) + 3 * nat x) (hdr @ ?rows)
        = drop (nat (height imageData - 1 - y) * (3 * nat (width imageData) + nat pad) + 3 * nat x) ?rows"
      using hdr(1) K by (simp add: add.assoc)
    then show ?thesis
      using that assms rows_pixel [of imageData x y "nat pad"] pixel_bytes_missing [of imageData y x]
      by simp
  qed
  then show ?thesis using hdr(2) unfolding pad_def by blast
qed


theorem createBMP_missing_pixels_black_witness:
  "1 \<le> width \<lparr>width = 2, height = 2, data = [0xFFFF], name = ''img''\<rparr> \<and>
   1 \<le> height \<lparr>width = 2, height = 2, data = [0xFFFF], name = ''img''\<rparr> \<and>
   int (length (data \<lparr>width = 2, height = 2, data = [0xFFFF], name = ''img''\<rparr>)) < 2 * 2 \<and>
   54 + (2 * 3 + (4 - (2 * 3) mod 4) mod 4) * 2 \<le> int 2147483647 \<and>
   (\<exists>bs. createBMP 2147483647 \<lparr>width = 2, height = 2, data = [0xFFFF], name = ''img''\<rparr> = Inr bs \<and>
      take 3 (drop (54 + 0 * 8 + 3 * 1) bs) = [0, 0, 0] \<and>
      take 3 (drop (54 + 0 * 8 + 3 * 0) bs) = [0, 0, 0] \<and>
      take 3 (drop (54 + 1 * 8 + 3 * 1) bs) = [0, 0, 0])"
proof -
  let ?img = "\<lparr>width = 2, height = 2, data = [0xFFFF], name = ''img''\<rparr>"
  from createBMP_missing_pixels_black [of ?img 2147483647]
  obtain bs where bs: "createBMP 2147483647 ?img = Inr bs"
    and black: "\<And>x y. 0 \<le> x \<Longrightarrow> x < 2 \<Longrightarrow> 0 \<le> y \<Longrightarrow> y < 2 \<Longrightarrow> 1 \<le> y * 2 + x \<Longrightarrow>
        take 3 (drop (54 + nat (2 - 1 - y) * 8 + 3 * nat x) bs) = [0, 0, 0]"
    by auto
  have "take 3 (drop (54 + 0 * 8 + 3 * 1) bs) = [0, 0, 0]" using black [of 1 1] by simp
  moreover have "take 3 (drop (54 + 0 * 8 + 3 * 0) bs) = [0, 0, 0]" using black [of 0 1] by simp
  moreover have "take 3 (drop (54 + 1 * 8 + 3 * 1) bs) = [0, 0, 0]" using black [of 1 0] by simp
  ultimately show ?thesis using bs by simp
qed

section \<open>Claims about extraction and parsing\<close>

text \<open>
  C7 (as amended). The pipeline fails with \<open>NoHexValuesFound\<close> exactly when the strict
  declaration pattern matches nowhere and the text contains no \<open>0x\<close> token. When the text
  contains a token, a block is extracted; and whenever a block is extracted, the pipeline fails
  with \<open>NoValidHexValues\<close> exactly when neither parsing strategy yields a value from that
  block. A failure is one of these two kinds, and then no image is returned.
\<close>

theorem parseHexFile_failures:
  "(parseHexFile content = Inl NoHexValuesFound \<longleftrightarrow>
      js_match re_array content = None \<and> \<not> has_token content)
   \<and> (has_token content \<longrightarrow> (\<exists>nm blk. extract_block content = Inr (nm, blk)))
   \<and> (extract_block content = Inr (nm, blk) \<longrightarrow>
        (parseHexFile content = Inl NoValidHexValues \<longleftrightarrow>
           direct_values blk = [] \<and> fallback_values blk = []))
   \<and> (parseHexFile content = Inl e \<longrightarrow>
        (e = NoHexValuesFound \<or> e = NoValidHexValues) \<and>
        (\<forall>imageData. parseHexFile content \<noteq> Inr imageData))"
proof (intro conjI impI)
  show "parseHexFile content = Inl NoHexValuesFound \<longleftrightarrow>
      js_match re_array content = None \<and> \<not> has_token content"
  proof (cases "extract_block content")
    case (Inl e)
    then show ?thesis using extract_block_error [of content e]
      by (auto simp: parseHexFile_def)
  next
    case (Inr nb)
    then have "\<not> (js_match re_array content = None \<and> \<not> has_token content)"
      using extract_block_error [of content NoHexValuesFound] by auto
    moreover have "parseHexFile content \<noteq> Inl NoHexValuesFound"
      using Inr by (auto simp: parseHexFile_def Let_def split: prod.splits)
    ultimately show ?thesis by simp
  qed
next
  assume "has_token content"
  then have "\<And>e. extract_block content \<noteq> Inl e" using extract_block_error by blast
  then show "\<exists>nm blk. extract_block content = Inr (nm, blk)"
    by (cases "extract_block content") auto
next
  assume "extract_block content = Inr (nm, blk)"
  then show "parseHexFile content = Inl NoValidHexValues \<longleftrightarrow>
           direct_values blk = [] \<and> fallback_values blk = []"
    by (auto simp: parseHexFile_def hex_values_def Let_def split: prod.splits)
next
  assume "parseHexFile content = Inl e"
  then show "e = NoHexValuesFound \<or> e = NoValidHexValues"
    using extract_block_error [of content e]
    by (auto simp: parseHexFile_def Let_def split: sum.splits prod.splits if_splits)
next
  assume "parseHexFile content = Inl e"
  then show "\<forall>imageData. parseHexFile content \<noteq> Inr imageData" by simp
qed

theorem parseHexFile_failures_witness:
  "has_token ''uint16_t a[] = {1}; 0x5''
   \<and> extract_block ''uint16_t a[] = {1}; 0x5'' = Inr (''a'', ''1'')
   \<and> direct_values ''1'' = [] \<and> fallback_values ''1'' = []
   \<and> parseHexFile ''uint16_t a[] = {1}; 0x5'' = Inl NoValidHexValues
   \<and> parseHexFile ''uint16_t a[] = {1}; 0x5'' \<noteq> Inl NoHexValuesFound"
proof -
  have t: "has_token ''uint16_t a[] = {1}; 0x5''" by (simp add: hexdigit_def)
  show ?thesis
    using parseHexFile_failures [of "''uint16_t a[] = {1}; 0x5''" "''a''" "''1''" NoValidHexValues]
      t eval_short eval_short_values
    by simp
qed

text \<open>
  As the claim states it, a text without any \<open>0x\<close> token must fail with
  \<open>NoHexValuesFound\<close>. A declaration whose values carry no prefix has no token, matches the
  strict pattern, and is converted by the second parsing strategy.
\<close>

theorem parseHexFile_no_token_counterexample:
  "\<not> has_token ''uint16_t a[] = {1234}''
   \<and> parseHexFile ''uint16_t a[] = {1234}'' \<noteq> Inl NoHexValuesFound
   \<and> parseHexFile ''uint16_t a[] = {1234}'' =
       Inr \<lparr>width = 1, height = 1, data = [0x1234], name = ''a''\<rparr>"
proof -
  have "resolveDimensions 1 = (1, 1)"
    by (simp add: resolveDimensions_def possibleDimensions_def commonResolutions_def
        floor_sqrt.simps)
  then have "parseHexFile ''uint16_t a[] = {1234}'' =
       Inr \<lparr>width = 1, height = 1, data = [0x1234], name = ''a''\<rparr>"
    by (simp add: parseHexFile_def eval_no_prefix eval_values)
  moreover have "\<not> has_token ''uint16_t a[] = {1234}''" by (simp add: hexdigit_def)
  ultimately show ?thesis by simp
qed

text \<open>
  C8. Let the text contain a declaration: the type \<open>uint16_t\<close>, white space, an identifier
  \<open>foo\<close>, an optional bracketed size, \<open>=\<close>, and a brace-delimited non-empty list
  \<open>blk\<close>, with any white space the pattern allows in between, and let it be the first
  declaration of the text: at no earlier position does the pattern, taken from the type on,
  match. Whatever precedes it (a \<open>const\<close> qualifier, other uses of \<open>uint16_t\<close>, loose
  \<open>0x\<close> tokens) and whatever follows it, extraction returns the name \<open>foo\<close> and the
  block \<open>blk\<close>.
\<close>

theorem extract_block_declaration_wins:
  assumes form: "content = pre @ ''uint16_t'' @ ws1 @ foo @ ws2 @ ''['' @ ws3 @ ds @ ws4 @ '']'' @ ws5
                   @ ''='' @ ws6 @ ''{'' @ blk @ ''}'' @ post"
    and ws1: "ws1 \<noteq> []" "list_all is_space ws1"
    and foo: "foo \<noteq> []" "list_all is_word foo"
    and ws: "list_all is_space ws2" "list_all is_space ws3" "list_all is_digit ds"
            "list_all is_space ws4" "list_all is_space ws5" "list_all is_space ws6"
    and blk: "blk \<noteq> []" "CHR ''}'' \<notin> set blk"
    and first: "\<forall>i < length pre. match_here re_array_body (drop i content) = None"
  shows "extract_block content = Inr (foo, blk)"
proof -
  define decl where "decl = ''uint16_t'' @ ws1 @ foo @ ws2 @ ''['' @ ws3 @ ds @ ws4 @ '']'' @ ws5
                   @ ''='' @ ws6 @ ''{'' @ blk @ ''}'' @ post"
  have t: "content = pre @ decl" using form by (simp add: decl_def)
  note at_decl = re_array_body_at_declaration [OF decl_def ws1 foo ws blk]
  have hd_decl: "hd decl = CHR ''u''" "decl \<noteq> []" by (simp_all add: decl_def)
  have body_pos: "snd x = [foo, blk]"
    if "x \<in> set (run re_array_body (drop j content, []))" "j \<le> length pre" for x j
  proof -
    have "j = length pre"
    proof (rule ccontr)
      assume "j \<noteq> length pre"
      then have "j < length pre" using that(2) by simp
      with first have "match_here re_array_body (drop j content) = None" by blast
      then have "run re_array_body (drop j content, []) = []" by (simp only: match_here_None_run)
      with that(1) show False by simp
    qed
    then have "drop j content = decl" using t by simp
    with that(1) at_decl(2) [of x "[]"] show ?thesis by simp
  qed
  have caps: "snd x = [foo, blk]"
    if x: "x \<in> set (run re_array (drop i content, []))" and i: "i \<le> length pre" for x i
  proof -
    from re_array_cases [OF x] show ?thesis
    proof (elim disjE exE conjE)
      assume "x \<in> set (run re_array_body (drop i content, []))"
      then show ?thesis using body_pos i by blast
    next
      fix w rest
      assume w: "w \<noteq> []" "list_all is_space w" "drop i content = ''const'' @ w @ rest"
        and b: "x \<in> set (run re_array_body (rest, []))"
      define cw where "cw = ''const'' @ w"
      have dw: "drop i content = cw @ rest" using w(3) by (simp add: cw_def)
      let ?j = "i + length cw"
      have rest: "rest = drop ?j content"
      proof -
        have "drop (length cw) (drop i content) = rest" unfolding dw by simp
        then show ?thesis by (simp add: add.commute)
      qed
      have "?j \<le> length pre"
      proof (rule ccontr)
        assume "\<not> ?j \<le> length pre"
        then have k: "length pre - i < length cw" using i by simp
        have "drop i content = drop i pre @ decl" using i t by simp
        moreover have "length (drop i pre) = length pre - i" by simp
        ultimately have "(drop i content) ! (length pre - i) = decl ! 0"
          by (metis nth_append_length_plus add.right_neutral)
        also have "\<dots> = CHR ''u''" using hd_decl by (simp add: hd_conv_nth)
        finally have "(cw @ rest) ! (length pre - i) = CHR ''u''" using dw by simp
        then have "cw ! (length pre - i) = CHR ''u''" using k by (simp add: nth_append)
        then have "CHR ''u'' \<in> set cw" using k nth_mem by metis
        then have "CHR ''u'' \<in> set w" by (simp add: cw_def)
        then have "is_space CHR ''u''" using w(2) by (auto simp: list_all_iff)
        then show False by (simp add: is_space_def)
      qed
      with b rest body_pos show ?thesis by blast
    qed
  qed
  have here: "match_here re_array (drop (length pre) content) \<noteq> None"
  proof -
    from at_decl(1) [of "[]"] obtain y where "y \<in> set (run re_array_body (decl, []))"
      by (cases "run re_array_body (decl, [])") auto
    then have "y \<in> set (run re_array (decl, []))" by (rule re_array_body_subset)
    then have "run re_array (decl, []) \<noteq> []" by auto
    then show ?thesis using t by (simp add: match_here_None_run)
  qed
  have "\<exists>m. js_match re_array content = Some (m, [foo, blk])"
  proof (rule js_match_first [of "length pre"])
    show "length pre \<le> length content" using t by simp
    show "match_here re_array (drop (length pre) content) \<noteq> None" by (rule here)
    show "c = [foo, blk]" if "i \<le> length pre" "match_here re_array (drop i content) = Some (m, c)"
      for i m c
      using match_here_Some_run [OF that(2)] caps [OF _ that(1)] by fastforce
  qed
  then show ?thesis by (auto simp: extract_block_def)
qed


theorem extract_block_declaration_wins_witness:
  "match_here re_array_body ''uint16_t w = 2; const uint16_t foo[] = {0x1, 0x2}; 0x3'' = None
   \<and> extract_block ''const uint16_t w = 2; const uint16_t foo[] = {0x1, 0x2}; 0x3''
         = Inr (''foo'', ''0x1, 0x2'')"
proof -
  let ?content = "''const uint16_t w = 2; const uint16_t foo[] = {0x1, 0x2}; 0x3''"
  let ?pre = "''const uint16_t w = 2; const ''"
  have six: "match_here re_array_body ''uint16_t w = 2; const uint16_t foo[] = {0x1, 0x2}; 0x3'' = None"
    by (simp add: re_array_body_def re_array_middle_def plus_def match_here_def is_space_def
        is_word_def is_digit_def run.simps)
  have other: "match_here re_array_body s = None" if "take 8 s \<noteq> ''uint16_t''" for s
    using that re_array_body_prefix [of _ s "[]"] unfolding match_here_None_run
    by (cases "run re_array_body (s, [])") auto
  have none: "match_here re_array_body (drop i ?content) = None" if "i < length ?pre" for i
  proof (cases "i = 6")
    case True
    then show ?thesis using six by simp
  next
    case False
    have "i \<in> {0, 1, 2, 3, 4, 5, 7, 8, 9, 10, 11, 12, 13, 14, 15, 16, 17, 18, 19, 20, 21, 22, 23,
        24, 25, 26, 27}"
    proof -
      have "length ?pre = 28" by simp
      then have "i < 28" using that by (simp only:)
      then show ?thesis using False by simp arith
    qed
    then have "take 8 (drop i ?content) \<noteq> ''uint16_t''"
      by (elim insertE emptyE) simp_all
    then show ?thesis by (rule other)
  qed
  then have hyp: "\<forall>i < length ?pre. match_here re_array_body (drop i ?content) = None"
    by blast
  have "extract_block ?content = Inr (''foo'', ''0x1, 0x2'')"
    using extract_block_declaration_wins [of ?content ?pre "'' ''" "''foo''" "[]" "[]" "[]" "[]"
        "'' ''" "'' ''" "''0x1, 0x2''" "''; 0x3''", OF _ _ _ _ _ _ _ _ _ _ _ _ _ hyp]
    by (simp add: is_space_def is_word_def is_digit_def)
  then show ?thesis using six by simp
qed

text \<open>
  C10. Let a block contain \<open>0x\<close> followed by five or more hexadecimal digits, as a token:
  not directly preceded by a hexadecimal digit or by \<open>x\<close>. Then the pattern of line 68
  matches \<open>0x\<close> and the first four digits, \<^verbatim>\<open>parseInt\<close> gives the value of these
  four digits, and that value is among the values of the block. For every block, every
  candidate of either strategy is a number in \<open>[0, 0xFFFF]\<close> before the range test is
  applied, and so is every value returned.
\<close>

theorem long_token_truncated:
  assumes "block = pre @ ''0x'' @ ds @ post"
    and "list_all (in_class hexdigit) ds" and "5 \<le> length ds"
    and "pre = [] \<or> \<not> (in_class hexdigit (last pre) \<or> last pre = CHR ''x'' \<or> last pre = CHR ''X'')"
  shows "''0x'' @ take 4 ds \<in> set (js_match_all re_hex4 block)
       \<and> parseInt16 (''0x'' @ take 4 ds) = Some (hex_number (take 4 ds))
       \<and> hex_number (take 4 ds) \<in> set (hex_values block)
       \<and> list_all in_range (direct_candidates anyBlock)
       \<and> list_all in_range (fallback_candidates anyBlock)
       \<and> (\<forall>v \<in> set (hex_values anyBlock). 0 \<le> v \<and> v \<le> 0xFFFF)"
proof -
  let ?m = "''0x'' @ take 4 ds"
  have pre: "pre = [] \<or> \<not> tokchar (last pre)" using assms(4) by (simp add: tokchar_def)
  from js_match_all_skip [OF pre, of "''0x'' @ ds @ post"] obtain ms where
    "js_match_all re_hex4 block = ms @ js_match_all re_hex4 (''0x'' @ ds @ post)"
    using assms(1) by auto
  moreover have "js_match_all re_hex4 (''0x'' @ ds @ post) =
      ?m # js_match_all re_hex4 (drop 4 ds @ post)"
    using assms(2,3) by (intro js_match_all_token) simp_all
  ultimately have mem: "?m \<in> set (js_match_all re_hex4 block)" by simp
  have t4: "take 4 ds \<noteq> []" "list_all (in_class hexdigit) (take 4 ds)"
    using assms(2,3) by (auto simp: list_all_iff dest: in_set_takeD)
  have pv: "parseInt16 ?m = Some (hex_number (take 4 ds))"
    using parseInt16_prefixed [of "CHR ''x''" "take 4 ds"] t4 by simp
  have cand: "list_all in_range (direct_candidates block)"
    by (rule direct_candidates_in_range)
  then have "in_range (parseInt16 ?m)" using mem by (simp add: list_all_iff direct_candidates_def)
  then have dv: "hex_number (take 4 ds) \<in> set (direct_values block)"
    using mem pv unfolding direct_values_def direct_candidates_def by force
  then have "hex_values block = direct_values block"
    by (auto simp: hex_values_def Let_def)
  then have hv: "hex_number (take 4 ds) \<in> set (hex_values block)" using dv by simp
  show ?thesis
    using mem pv hv direct_candidates_in_range [of anyBlock]
      fallback_candidates_in_range [of anyBlock] hex_values_in_range [of _ anyBlock]
    by blast
qed

theorem long_token_truncated_witness:
  "''a = 0x12345;'' = ''a = '' @ ''0x'' @ ''12345'' @ '';''
   \<and> list_all (in_class hexdigit) ''12345'' \<and> 5 \<le> length ''12345''
   \<and> \<not> (in_class hexdigit (last ''a = '') \<or> last ''a = '' = CHR ''x'' \<or> last ''a = '' = CHR ''X'')
   \<and> ''0x1234'' \<in> set (js_match_all re_hex4 ''a = 0x12345;'')
   \<and> parseInt16 ''0x1234'' = Some 0x1234
   \<and> 0x1234 \<in> set (hex_values ''a = 0x12345;'')"
proof -
  have h: "list_all (in_class hexdigit) ''12345''" by (simp add: hexdigit_def)
  have l: "\<not> (in_class hexdigit (last ''a = '') \<or> last ''a = '' = CHR ''x'' \<or> last ''a = '' = CHR ''X'')"
    by (simp add: hexdigit_def)
  have n: "hex_number ''1234'' = 0x1234" by (simp add: hex_number_def hex_value_def)
  show ?thesis
    using long_token_truncated [of "''a = 0x12345;''" "''a = ''" "''12345''" "'';''"] h l n by simp
qed


end
